theory Spec2Isabelle
  imports Complex_Main "HOL-Library.Word" "HOL-Library.Log_Nat"
begin

unbundle bit_operations_syntax

section \<open>Conventions\<close>

text \<open>
  The firmware is C for a 32-bit ARM core. Values of the signed types \<open>int\<close>, \<open>int32_t\<close> and
  \<open>q31_t\<close> are represented by the integers they denote (type \<open>int\<close>); signed overflow is
  undefined in C and is no behaviour of the program. Where the source converts to an unsigned
  32-bit type (\<open>uint32_t\<close>, \<open>size_t\<close>) the reduction modulo \<open>2 ^ 32\<close> is written out with
  \<open>uint32_of\<close>, and the way back to \<open>int32_t\<close> with \<open>int32_of\<close>. Samples (\<open>int16_t\<close>,
  \<open>uint16_t\<close>) are 16-bit words. A finite \<open>float\<close> is represented by the real it denotes, and
  every conversion to \<open>float\<close> and every \<open>float\<close> operation rounds to single precision.
\<close>

definition uint32_of :: "int \<Rightarrow> int" where
  "uint32_of x = x mod 2 ^ 32"

definition int32_of :: "int \<Rightarrow> int" where
  "int32_of x = (x + 2 ^ 31) mod 2 ^ 32 - 2 ^ 31"

subsection \<open>Single-precision arithmetic\<close>

text \<open>
  The target evaluates \<open>float\<close> expressions in IEEE 754 single precision (24 bits of
  significand, smallest normal exponent \<open>- 126\<close>), each operation rounding its exact result
  once, to nearest with ties to even. \<open>float_exponent a\<close> is the exponent \<open>e\<close> with
  \<open>2 ^ e \<le> a < 2 ^ (e + 1)\<close> of a positive \<open>a\<close>, and \<open>float_round\<close> rounds a real to the grid
  of spacing \<open>2 ^ (e - 23)\<close>. A result whose magnitude reaches \<open>2 ^ 128\<close> is an infinity on
  the machine; here it stays the rounded real, which compares with every finite value as the
  infinity does, and whose conversion to an integer type is undefined in C.
\<close>

definition pow2 :: "int \<Rightarrow> real" where
  "pow2 e = (if 0 \<le> e then 2 ^ nat e else 1 / 2 ^ nat (- e))"

definition float_exponent :: "real \<Rightarrow> int" where
  "float_exponent a = (if 1 \<le> a then bitlen \<lfloor>a\<rfloor> - 1 else - bitlen (\<lceil>1 / a\<rceil> - 1))"

definition round_nearest_even :: "real \<Rightarrow> int" where
  "round_nearest_even x =
     (let f = \<lfloor>x\<rfloor>; d = x - real_of_int f
      in if d < 1 / 2 then f else if 1 / 2 < d then f + 1 else if even f then f else f + 1)"

definition float_round :: "real \<Rightarrow> real" where
  "float_round x =
     (let a = \<bar>x\<bar>;
          e = max (float_exponent a) (- 126);
          ulp = pow2 (e - 23)
      in sgn x * (real_of_int (round_nearest_even (a / ulp)) * ulp))"

text \<open>
  The conversion of an integer to \<open>float\<close>, and the product and the sum of two \<open>float\<close>s.
\<close>

definition float_of_int :: "int \<Rightarrow> real" where
  "float_of_int i = float_round (real_of_int i)"

definition float_mul :: "real \<Rightarrow> real \<Rightarrow> real" where
  "float_mul a b = float_round (a * b)"

definition float_add :: "real \<Rightarrow> real \<Rightarrow> real" where
  "float_add a b = float_round (a + b)"

text \<open>Conversion of a \<open>float\<close> to an integer type truncates towards zero.\<close>

definition float_trunc :: "real \<Rightarrow> int" where
  "float_trunc r = (if 0 \<le> r then \<lfloor>r\<rfloor> else \<lceil>r\<rceil>)"

text \<open>The macro \<open>MIN(a, b)\<close> of CMSIS-DSP: \<open>((a) < (b)) ? (a) : (b)\<close>.\<close>

definition MIN_macro :: "'a::linorder \<Rightarrow> 'a \<Rightarrow> 'a" where
  "MIN_macro a b = (if a < b then a else b)"

text \<open>\<open>x >> n\<close> on a signed value is the arithmetic shift of the target compiler.\<close>

definition shift_right :: "int \<Rightarrow> int \<Rightarrow> int" where
  "shift_right x n = x div 2 ^ nat n"

section \<open>Settings (settings.h)\<close>

text \<open>
  The fields of \<open>settings_t\<close> that the acquisition, trigger and buffer code reads. The
  calculated fields \<open>_trigger_thresholds\<close> and \<open>_trigger_flags\<close> lose their leading underscore.
\<close>

record settings_t =
  min_sampling_time_s :: real
  trigger_max_count :: int
  pretrigger_time_s :: real
  trigger_thresholds :: "int list"
  trigger_flags :: "bool list"
  gated_recording :: bool

definition MAX_TRIGGER_MATCH_CLAUSES :: nat where
  "MAX_TRIGGER_MATCH_CLAUSES = 16"

definition SETTINGS_IGNORE_TRIGGER_VALUE :: int where
  "SETTINGS_IGNORE_TRIGGER_VALUE = - 1"

section \<open>Gain controller (gain.c)\<close>

text \<open>The tables of gain.c have five entries, so \<open>GAIN_MAX_RANGE_INDEX\<close> is 4.\<close>

definition GAIN_MAX_RANGE_INDEX :: nat where
  "GAIN_MAX_RANGE_INDEX = 4"

definition s_gain_shifts :: "int list" where
  "s_gain_shifts = [0, 1, 2, 3, 4]"

definition gain_shift_for_range :: "nat \<Rightarrow> int" where
  "gain_shift_for_range r = s_gain_shifts ! r"

text \<open>\<open>gain_get_shift\<close> reads the table at the active range \<open>s_logical_index\<close>.\<close>

definition gain_get_shift :: "nat \<Rightarrow> int" where
  "gain_get_shift s_logical_index = s_gain_shifts ! s_logical_index"

section \<open>Spectral trigger detector (trigger.c)\<close>

text \<open>
  One round of the loop of \<open>check_for_trigger\<close>, for bucket \<open>i\<close>. The loop state is the match
  count and the optional match vector (\<open>matches\<close> may be \<open>NULL\<close>).
\<close>

definition check_bucket ::
  "settings_t \<Rightarrow> int \<Rightarrow> int list \<Rightarrow> nat \<Rightarrow> int \<times> bool list option \<Rightarrow> int \<times> bool list option"
where
  "check_bucket ps shift_for_gain freq_buckets i acc =
     (if trigger_flags ps ! i = False \<or> trigger_thresholds ps ! i = SETTINGS_IGNORE_TRIGGER_VALUE
      then acc
      else
        let threshold = shift_right (shift_right (trigger_thresholds ps ! i) shift_for_gain) shift_for_gain;
            matched = (freq_buckets ! i \<ge> threshold)
        in ((if matched then fst acc + 1 else fst acc),
            map_option (\<lambda>m. m[i := matched]) (snd acc)))"

definition check_for_trigger ::
  "settings_t \<Rightarrow> nat \<Rightarrow> int list \<Rightarrow> bool list option \<Rightarrow> bool \<times> bool list option"
where
  "check_for_trigger ps s_logical_index freq_buckets matches =
     (let shift = gain_get_shift s_logical_index;
          shift_for_gain = gain_shift_for_range GAIN_MAX_RANGE_INDEX - shift;
          r = fold (check_bucket ps shift_for_gain freq_buckets) [0..<MAX_TRIGGER_MATCH_CLAUSES] (0, matches);
          match_count = fst r;
          triggered = (match_count > 0 \<and> match_count \<le> trigger_max_count ps)
      in (triggered, snd r))"

definition FFT_WINDOW_SIZE :: nat where
  "FFT_WINDOW_SIZE = 32"

text \<open>
  \<open>check_each_window\<close> evaluates two windows of the half frame, \<open>HALF_SAMPLES_PER_FRAME >> 1\<close>
  samples apart. The CMSIS-DSP chain (Hann window, real FFT, rescaling, squared magnitude) is
  library code and is the parameter \<open>fft_power\<close>; \<open>HALF_SAMPLES_PER_FRAME\<close> comes from main.h
  and is the parameter \<open>half_samples\<close>.
\<close>

definition check_each_window ::
  "(16 word list \<Rightarrow> int list) \<Rightarrow> nat \<Rightarrow> settings_t \<Rightarrow> nat \<Rightarrow> 16 word list \<Rightarrow> bool"
where
  "check_each_window fft_power half_samples ps s_logical_index pRawData =
     (let windows_to_check_log2 = 1;
          windows_to_check = (2::nat) ^ windows_to_check_log2;
          increment = half_samples div 2 ^ windows_to_check_log2
      in fold (\<lambda>i triggered.
                 triggered \<or>
                 fst (check_for_trigger ps s_logical_index
                        (fft_power (take FFT_WINDOW_SIZE (drop (i * increment) pRawData))) None))
              [0..<windows_to_check] False)"

section \<open>Sample acquirer (data_acquisition.c)\<close>

definition SCALE_DOWN_DELTA :: int where
  "SCALE_DOWN_DELTA = 0x6000"

definition SCALE_DOWN_THRESHOLD_UPPER :: int where
  "SCALE_DOWN_THRESHOLD_UPPER = SCALE_DOWN_DELTA"

definition SCALE_DOWN_THRESHOLD_LOWER :: int where
  "SCALE_DOWN_THRESHOLD_LOWER = - SCALE_DOWN_DELTA"

text \<open>
  The globals of the acquirer. \<open>g_raw_half_frame\<close> points into \<open>s_raw_buffer_q15\<close> and is kept
  as the offset it points at (\<open>None\<close> for \<open>NULL\<close>). \<open>leds_single_blink(LED_RED, 1)\<close> is an
  external call; the state counts how often it was made.
\<close>

record acquisition_state =
  s_raw_buffer_q15 :: "16 word list"
  s_signal_offset_correction :: int
  g_raw_half_frame :: "nat option"
  g_raw_half_frame_counter :: int
  g_raw_half_frame_ready :: bool
  leds_red_single_blinks :: nat

text \<open>
  The scaling of one sample. \<open>value\<close> is a \<open>uint16_t\<close> and the offset is cast to \<open>uint16_t\<close>;
  both are promoted to \<open>int\<close>, the arithmetic is done on \<open>int\<close>, and the result is converted
  to \<open>int16_t\<close> by the assignment.
\<close>

definition scale_sample :: "16 word \<Rightarrow> 16 word \<Rightarrow> nat \<Rightarrow> int \<Rightarrow> 16 word" where
  "scale_sample val offset leftshift correction =
     word_of_int ((uint val - uint offset) * 2 ^ leftshift - correction)"

definition scale_step ::
  "16 word list \<Rightarrow> nat \<Rightarrow> 16 word \<Rightarrow> nat \<Rightarrow> int \<Rightarrow> nat \<Rightarrow> 16 word list \<times> bool \<Rightarrow> 16 word list \<times> bool"
where
  "scale_step dmabuffer buffer_offset offset leftshift correction i acc =
     (let val = dmabuffer ! (buffer_offset + i);
          scaled_value = scale_sample val offset leftshift correction;
          dest = (fst acc)[buffer_offset + i := scaled_value]
      in if sint scaled_value > SCALE_DOWN_THRESHOLD_UPPER \<or> sint scaled_value < SCALE_DOWN_THRESHOLD_LOWER
         then (dest, True)
         else (dest, snd acc))"

text \<open>
  \<open>process_half_frame\<close>. \<open>HALF_SAMPLES_PER_FRAME\<close> is the parameter \<open>half_samples\<close>, and the
  registered processor \<open>s_data_processor\<close> (\<open>None\<close> for \<open>NULL\<close>) acts on a state \<open>p\<close> of its own.
\<close>

definition process_half_frame ::
  "nat \<Rightarrow> (16 word list \<Rightarrow> nat \<Rightarrow> 'p \<Rightarrow> 'p) option \<Rightarrow> bool \<Rightarrow> 16 word list \<Rightarrow> 16 word \<Rightarrow> nat \<Rightarrow>
   acquisition_state \<times> 'p \<Rightarrow> acquisition_state \<times> 'p"
where
  "process_half_frame half_samples s_data_processor is_first_half dmabuffer offset leftshift sp =
     (let st = fst sp;
          buffer_offset = (if is_first_half then 0 else half_samples);
          r = fold (scale_step dmabuffer buffer_offset offset leftshift (s_signal_offset_correction st))
                [0..<half_samples] (s_raw_buffer_q15 st, False);
          overload_detected = snd r;
          st1 = st\<lparr>s_raw_buffer_q15 := fst r\<rparr>;
          st2 = (if overload_detected
                 then st1\<lparr>leds_red_single_blinks := leds_red_single_blinks st1 + 1\<rparr> else st1);
          st3 = st2\<lparr>g_raw_half_frame := Some buffer_offset,
                    g_raw_half_frame_counter := g_raw_half_frame_counter st2 + 1,
                    g_raw_half_frame_ready := True\<rparr>;
          pBufferToUse = s_raw_buffer_q15 st3
      in (st3, case s_data_processor of None \<Rightarrow> snd sp | Some f \<Rightarrow> f pBufferToUse buffer_offset (snd sp)))"

section \<open>Publishing the trigger (trigger.c)\<close>

text \<open>
  The globals that \<open>trigger_main_fast_processing\<close> writes besides \<open>g_raw_half_frame_ready\<close>.
  The acquisition interrupt may run while the main loop evaluates a half frame, so what the
  main loop reads from the half frame and from the counter after the evaluation is an input
  of the step: \<open>raw\<close> is the half frame as the evaluation saw it, \<open>count2\<close> is the second read of
  \<open>g_raw_half_frame_counter\<close>. The first read is taken from the acquirer state at entry.
\<close>

record trigger_state =
  g_trigger_triggered :: bool
  s_counter :: int

definition trigger_main_fast_processing ::
  "(16 word list \<Rightarrow> int list) \<Rightarrow> nat \<Rightarrow> settings_t \<Rightarrow> nat \<Rightarrow> 16 word list \<Rightarrow> int \<Rightarrow>
   acquisition_state \<times> trigger_state \<Rightarrow> acquisition_state \<times> trigger_state"
where
  "trigger_main_fast_processing fft_power half_samples ps s_logical_index raw count2 gs =
     (let acq = fst gs; trg = snd gs in
      if g_raw_half_frame_ready acq then
        let acq1 = acq\<lparr>g_raw_half_frame_ready := False\<rparr>;
            count1 = g_raw_half_frame_counter acq1;
            triggered = check_each_window fft_power half_samples ps s_logical_index raw
        in if triggered then
             (if count2 = count1
              then (acq1, trg\<lparr>s_counter := s_counter trg + 1, g_trigger_triggered := True\<rparr>)
              else (acq1, trg))
           else (acq1, trg)
      else (acq, trg))"

section \<open>Buffer ring and sequencer (data_processor_buffers.c)\<close>

definition NUM_BUFFERS :: int where
  "NUM_BUFFERS = 37"

definition BUFFER_DELTA :: int where
  "BUFFER_DELTA = 2"

definition MAXIMUM_READ_LEAD :: int where
  "MAXIMUM_READ_LEAD = 12"

text \<open>\<open>DATA_BUFFER_ENTRIES\<close> is \<open>(32768 * 2) / sizeof(sample_type_t)\<close>, of type \<open>size_t\<close>.\<close>

definition DATA_BUFFER_ENTRIES :: int where
  "DATA_BUFFER_ENTRIES = 32768"

text \<open>The control values are \<open>(uint32_t) -1\<close> and \<open>(uint32_t) -2\<close>.\<close>

definition BUFFERFIFO_END_SEQUENCE :: int where
  "BUFFERFIFO_END_SEQUENCE = uint32_of (- 1)"

definition BUFFERFIFO_START_SEQUENCE :: int where
  "BUFFERFIFO_START_SEQUENCE = uint32_of (- 2)"

definition BUFFER_FIFO_LENGTH :: nat where
  "BUFFER_FIFO_LENGTH = nat (NUM_BUFFERS * 5)"

datatype data_processor_mode_t = DATA_PROCESSOR_TRIGGERED | DATA_PROCESSOR_CONTINUOUS

text \<open>
  The FIFO of unwrapped buffer indexes: the array \<open>s_buffer_fifo\<close> with its read and write
  positions and its count, which are \<open>size_t\<close>.
\<close>

record buffer_fifo =
  s_buffer_fifo :: "int list"
  s_buffer_fifo_next_read :: nat
  s_buffer_fifo_next_write :: nat
  s_buffer_fifo_count :: nat

text \<open>
  The static data of the module. The two-dimensional array \<open>s_buffers\<close> is a store from the
  flat position \<open>slot * DATA_BUFFER_ENTRIES + entry\<close> to the sample there, and
  \<open>s_active_buffer_ptr\<close> is the flat position it points at. \<open>s_is_new_sequence\<close> is the
  static local of \<open>dataprocessor_buffers_get_next\<close>.
\<close>

record buffers_state =
  s_buffers :: "int \<Rightarrow> 16 word"
  s_active_buffer_index :: int
  s_active_buffer_ptr :: int
  s_active_buffer_entry_count :: int
  s_unwrapped_filled_buffer_counter :: int
  fifo :: buffer_fifo
  s_is_triggered :: bool
  s_trigger_unwrapped_buffer_count :: int
  s_final_unwrapped_buffer_for_trigger :: int
  s_mode :: data_processor_mode_t
  s_is_gated :: bool
  s_gate_released_ticks :: int
  s_trigger_count :: int
  s_buffers_per_second :: int
  s_is_new_sequence :: bool

text \<open>The static initialisers; \<open>.bss\<close> data is zeroed on startup.\<close>

definition initial_buffers_state :: buffers_state where
  "initial_buffers_state =
     \<lparr> s_buffers = (\<lambda>a. 0),
       s_active_buffer_index = 0,
       s_active_buffer_ptr = 0,
       s_active_buffer_entry_count = 0,
       s_unwrapped_filled_buffer_counter = 0,
       fifo = \<lparr> s_buffer_fifo = replicate BUFFER_FIFO_LENGTH 0,
                s_buffer_fifo_next_read = 0,
                s_buffer_fifo_next_write = 0,
                s_buffer_fifo_count = 0 \<rparr>,
       s_is_triggered = False,
       s_trigger_unwrapped_buffer_count = 0,
       s_final_unwrapped_buffer_for_trigger = 0,
       s_mode = DATA_PROCESSOR_TRIGGERED,
       s_is_gated = False,
       s_gate_released_ticks = 0,
       s_trigger_count = 0,
       s_buffers_per_second = 0,
       s_is_new_sequence = False \<rparr>"

text \<open>
  \<open>samples_per_second / DATA_BUFFER_ENTRIES\<close> divides an \<open>int\<close> by a \<open>size_t\<close>, so it is an
  unsigned division.
\<close>

definition data_processor_buffers_reset ::
  "data_processor_mode_t \<Rightarrow> int \<Rightarrow> buffers_state \<Rightarrow> buffers_state"
where
  "data_processor_buffers_reset mode samples_per_second st =
     st\<lparr> s_mode := mode,
         s_active_buffer_index := 0,
         s_active_buffer_entry_count := 0,
         s_active_buffer_ptr := 0 * DATA_BUFFER_ENTRIES,
         s_is_gated := False,
         s_gate_released_ticks := 0,
         s_unwrapped_filled_buffer_counter := 0,
         fifo := (fifo st)\<lparr> s_buffer_fifo_next_read := 0,
                             s_buffer_fifo_next_write := 0,
                             s_buffer_fifo_count := 0 \<rparr>,
         s_is_triggered := False,
         s_trigger_unwrapped_buffer_count := 0,
         s_final_unwrapped_buffer_for_trigger := 0,
         s_buffers_per_second := int32_of (uint32_of samples_per_second div DATA_BUFFER_ENTRIES) \<rparr>"

definition data_processor_buffers_init :: "buffers_state \<Rightarrow> buffers_state" where
  "data_processor_buffers_init st = data_processor_buffers_reset DATA_PROCESSOR_TRIGGERED 0 st"

definition add_and_wrap :: "int \<Rightarrow> int \<Rightarrow> int \<Rightarrow> int" where
  "add_and_wrap i delta modulus = (let i = i + delta in if i \<ge> modulus then i - modulus else i)"

definition buffer_fifo_put :: "int \<Rightarrow> buffer_fifo \<Rightarrow> buffer_fifo" where
  "buffer_fifo_put unwrapped_buffer_index f =
     f\<lparr> s_buffer_fifo := (s_buffer_fifo f)[s_buffer_fifo_next_write f := unwrapped_buffer_index],
        s_buffer_fifo_next_write :=
          nat (add_and_wrap (int (s_buffer_fifo_next_write f)) 1 (int BUFFER_FIFO_LENGTH)),
        s_buffer_fifo_count := s_buffer_fifo_count f + 1 \<rparr>"

text \<open>
  \<open>buffer_fifo_get\<close> and \<open>buffer_fifo_sniff\<close> return \<open>false\<close> and leave the output parameter
  alone when the FIFO is empty: the value read is \<open>None\<close> then.
\<close>

definition buffer_fifo_get :: "buffer_fifo \<Rightarrow> int option \<times> buffer_fifo" where
  "buffer_fifo_get f =
     (if s_buffer_fifo_count f > 0 then
        (Some (s_buffer_fifo f ! s_buffer_fifo_next_read f),
         f\<lparr> s_buffer_fifo_next_read :=
               nat (add_and_wrap (int (s_buffer_fifo_next_read f)) 1 (int BUFFER_FIFO_LENGTH)),
            s_buffer_fifo_count := s_buffer_fifo_count f - 1 \<rparr>)
      else (None, f))"

definition buffer_fifo_sniff :: "buffer_fifo \<Rightarrow> int option" where
  "buffer_fifo_sniff f =
     (if s_buffer_fifo_count f > 0 then Some (s_buffer_fifo f ! s_buffer_fifo_next_read f)
      else None)"

text \<open>
  The copy loop \<open>*pTargetDest++ = *pSource_q15++\<close>, run \<open>n\<close> times. A write outside the array
  \<open>s_buffers\<close> has no defined behaviour; the result is \<open>None\<close> then. The source is the sample
  memory behind \<open>pDMABuffer\<close>, as a function from the position to the sample.
\<close>

fun copy_samples ::
  "nat \<Rightarrow> int \<Rightarrow> (int \<Rightarrow> 16 word) \<Rightarrow> int \<Rightarrow> (int \<Rightarrow> 16 word) \<Rightarrow> (int \<Rightarrow> 16 word) option"
where
  "copy_samples 0 pTargetDest src pSource mem = Some mem"
| "copy_samples (Suc n) pTargetDest src pSource mem =
     (if 0 \<le> pTargetDest \<and> pTargetDest < NUM_BUFFERS * DATA_BUFFER_ENTRIES
      then copy_samples n (pTargetDest + 1) src (pSource + 1) (mem(pTargetDest := src pSource))
      else None)"

text \<open>
  The block of \<open>data_processor_buffers\<close> that runs when the active buffer is full: switch to
  the next buffer, decide what goes to the FIFO, and count the buffer as filled.
\<close>

definition switch_to_next_buffer :: "bool \<Rightarrow> buffers_state \<Rightarrow> buffers_state" where
  "switch_to_next_buffer gated st =
     (let index = s_active_buffer_index st + 1;
          index = (if index \<ge> NUM_BUFFERS then 0 else index);
          st1 = st\<lparr> s_active_buffer_index := index,
                    s_active_buffer_ptr := index * DATA_BUFFER_ENTRIES,
                    s_active_buffer_entry_count := 0 \<rparr>;
          st2 =
            (if s_mode st1 = DATA_PROCESSOR_TRIGGERED then
               (if s_is_triggered st1 then
                  (if gated then
                     (if s_unwrapped_filled_buffer_counter st1 > s_final_unwrapped_buffer_for_trigger st1 then
                        st1\<lparr> s_is_triggered := False,
                             fifo := buffer_fifo_put (int32_of BUFFERFIFO_END_SEQUENCE) (fifo st1),
                             s_is_gated := True \<rparr>
                      else if int (s_buffer_fifo_count (fifo st1)) \<ge> NUM_BUFFERS + 1 then
                        st1\<lparr> fifo := buffer_fifo_put (int32_of BUFFERFIFO_END_SEQUENCE) (fifo st1),
                             s_is_gated := True \<rparr>
                      else
                        st1\<lparr> fifo := buffer_fifo_put (s_unwrapped_filled_buffer_counter st1) (fifo st1) \<rparr>)
                   else
                     (if s_unwrapped_filled_buffer_counter st1 > s_final_unwrapped_buffer_for_trigger st1 then
                        st1\<lparr> s_is_triggered := False,
                             fifo := buffer_fifo_put (int32_of BUFFERFIFO_END_SEQUENCE) (fifo st1) \<rparr>
                      else
                        st1\<lparr> fifo := buffer_fifo_put (s_unwrapped_filled_buffer_counter st1) (fifo st1) \<rparr>))
                else st1)
             else if s_mode st1 = DATA_PROCESSOR_CONTINUOUS then
               (let st1a = st1\<lparr> fifo := buffer_fifo_put (s_unwrapped_filled_buffer_counter st1) (fifo st1) \<rparr>
                in if gated then
                     (if int (s_buffer_fifo_count (fifo st1a)) \<ge> NUM_BUFFERS + 1 then
                        st1a\<lparr> fifo := buffer_fifo_put (int32_of BUFFERFIFO_END_SEQUENCE) (fifo st1a),
                              s_is_gated := True \<rparr>
                      else st1a)
                   else st1a)
             else st1)
      in st2\<lparr> s_unwrapped_filled_buffer_counter := s_unwrapped_filled_buffer_counter st2 + 1 \<rparr>)"

text \<open>
  \<open>data_processor_buffers\<close>, called in interrupt context with \<open>count\<close> samples at
  \<open>pDMABuffer + dma_buffer_offset\<close>. \<open>DATA_BUFFER_ENTRIES - s_active_buffer_entry_count\<close> is
  computed in \<open>size_t\<close> and stored in an \<open>int\<close>, and the comparison of the entry count with
  \<open>DATA_BUFFER_ENTRIES\<close> is unsigned.
\<close>

definition data_processor_buffers ::
  "settings_t \<Rightarrow> (int \<Rightarrow> 16 word) \<Rightarrow> int \<Rightarrow> int \<Rightarrow> buffers_state \<Rightarrow> buffers_state option"
where
  "data_processor_buffers ps pDMABuffer dma_buffer_offset count st =
     (let gated = gated_recording ps in
      if gated \<and> s_is_gated st then Some st
      else
        let samples_remaining = count;
            free_entries = int32_of (uint32_of (DATA_BUFFER_ENTRIES - s_active_buffer_entry_count st));
            samples_to_copy = (if free_entries < samples_remaining then free_entries else samples_remaining);
            pTargetDest = s_active_buffer_ptr st + s_active_buffer_entry_count st;
            pSource_q15 = dma_buffer_offset
        in case copy_samples (nat samples_to_copy) pTargetDest pDMABuffer pSource_q15 (s_buffers st) of
             None \<Rightarrow> None
           | Some mem1 \<Rightarrow>
               let pSource_q15 = pSource_q15 + int (nat samples_to_copy);
                   st1 = st\<lparr> s_buffers := mem1,
                             s_active_buffer_entry_count := s_active_buffer_entry_count st + samples_to_copy \<rparr>;
                   samples_remaining = samples_remaining - samples_to_copy;
                   st2 = (if uint32_of (s_active_buffer_entry_count st1) \<ge> DATA_BUFFER_ENTRIES
                          then switch_to_next_buffer gated st1 else st1)
               in if samples_remaining > 0 then
                    (let samples_to_copy = samples_remaining;
                         pTargetDest = s_active_buffer_ptr st2 + s_active_buffer_entry_count st2
                     in case copy_samples (nat samples_to_copy) pTargetDest pDMABuffer pSource_q15 (s_buffers st2) of
                          None \<Rightarrow> None
                        | Some mem2 \<Rightarrow>
                            Some (st2\<lparr> s_buffers := mem2,
                                       s_active_buffer_entry_count :=
                                         s_active_buffer_entry_count st2 + samples_to_copy \<rparr>))
                  else Some st2)"

text \<open>
  \<open>data_processor_buffers_on_recording_complete\<close>. In
  \<open>s_unwrapped_filled_buffer_counter + s_buffers_per_second * min_sampling_time_s\<close> both
  integers are converted to \<open>float\<close>, the product and the sum are \<open>float\<close> operations, and the
  result is converted to \<open>int\<close>.
\<close>

definition data_processor_buffers_on_recording_complete ::
  "settings_t \<Rightarrow> int \<Rightarrow> buffers_state \<Rightarrow> buffers_state"
where
  "data_processor_buffers_on_recording_complete ps main_tick_count st =
     (let st1 = st\<lparr> s_is_gated := False, s_gate_released_ticks := main_tick_count \<rparr> in
      if s_mode st1 = DATA_PROCESSOR_CONTINUOUS then
        st1\<lparr> fifo := buffer_fifo_put (int32_of BUFFERFIFO_START_SEQUENCE) (fifo st1) \<rparr>
      else if s_mode st1 = DATA_PROCESSOR_TRIGGERED then
        (let minimum = float_trunc (float_add (float_of_int (s_unwrapped_filled_buffer_counter st1))
                          (float_mul (float_of_int (s_buffers_per_second st1)) (min_sampling_time_s ps)));
             st2 = (if s_final_unwrapped_buffer_for_trigger st1 < minimum
                    then st1\<lparr> s_final_unwrapped_buffer_for_trigger := minimum \<rparr> else st1)
         in st2\<lparr> fifo := buffer_fifo_put (int32_of BUFFERFIFO_START_SEQUENCE) (fifo st2) \<rparr>)
      else st1)"

text \<open>
  The loop of \<open>dataprocessor_buffers_get_next\<close>. The result is the return value (close the
  current file), the buffer handed out (\<open>*pBuffer\<close>, as the slot \<open>read_buffer_index\<close> of
  \<open>s_buffers\<close>; \<open>None\<close> for \<open>NULL\<close>) and the new state. The comparisons with the control
  values and the computation of \<open>lead\<close> are unsigned.
\<close>

function get_next_loop :: "bool \<Rightarrow> buffers_state \<Rightarrow> bool \<times> int option \<times> buffers_state" where
  "get_next_loop gated st =
     (case buffer_fifo_sniff (fifo st) of
        None \<Rightarrow> (False, None, st)
      | Some unwrapped_buffer_index \<Rightarrow>
          if uint32_of unwrapped_buffer_index = BUFFERFIFO_END_SEQUENCE then
            (True, None, st\<lparr> fifo := snd (buffer_fifo_get (fifo st)), s_is_new_sequence := False \<rparr>)
          else if uint32_of unwrapped_buffer_index = BUFFERFIFO_START_SEQUENCE then
            get_next_loop gated (st\<lparr> fifo := snd (buffer_fifo_get (fifo st)), s_is_new_sequence := True \<rparr>)
          else if unwrapped_buffer_index < s_unwrapped_filled_buffer_counter st - NUM_BUFFERS + 1 then
            get_next_loop gated (st\<lparr> fifo := snd (buffer_fifo_get (fifo st)) \<rparr>)
          else if unwrapped_buffer_index \<ge> s_unwrapped_filled_buffer_counter st then
            get_next_loop gated (st\<lparr> fifo := snd (buffer_fifo_get (fifo st)) \<rparr>)
          else
            let read_buffer_index =
                  (unwrapped_buffer_index - s_unwrapped_filled_buffer_counter st) +
                  (s_active_buffer_index st - 1);
                read_buffer_index =
                  (if read_buffer_index < 0 then read_buffer_index + NUM_BUFFERS else read_buffer_index);
                read_buffer_index =
                  (if read_buffer_index \<ge> NUM_BUFFERS then read_buffer_index - NUM_BUFFERS else read_buffer_index);
                write_buffer_index = uint32_of (s_active_buffer_index st);
                lead = (if uint32_of read_buffer_index > write_buffer_index
                        then uint32_of (uint32_of read_buffer_index - write_buffer_index)
                        else uint32_of (uint32_of (read_buffer_index + NUM_BUFFERS) - write_buffer_index))
            in if gated then
                 (False, Some read_buffer_index,
                  st\<lparr> s_is_new_sequence := False, fifo := snd (buffer_fifo_get (fifo st)) \<rparr>)
               else if \<not> s_is_new_sequence st \<or> lead < MAXIMUM_READ_LEAD then
                 (False, Some read_buffer_index,
                  st\<lparr> s_is_new_sequence := False, fifo := snd (buffer_fifo_get (fifo st)) \<rparr>)
               else (False, None, st))"
  by pat_completeness auto

termination
  by (relation "measure (\<lambda>(gated, st). s_buffer_fifo_count (fifo st))")
     (auto simp add: buffer_fifo_sniff_def buffer_fifo_get_def split: if_splits)

definition dataprocessor_buffers_get_next ::
  "settings_t \<Rightarrow> buffers_state \<Rightarrow> bool \<times> int option \<times> buffers_state"
where
  "dataprocessor_buffers_get_next ps st =
     (let gated = gated_recording ps in
      if gated \<and> \<not> s_is_gated st then (False, None, st)
      else get_next_loop gated st)"

text \<open>
  \<open>data_processor_buffers_on_trigger\<close>. The pretrigger range is computed in \<open>uint32_t\<close>. The
  products with the \<open>float\<close> settings and the sums with the fill counter are \<open>float\<close>
  operations on the converted integers; \<open>MIN\<close> compares the product with the converted
  \<open>unexpired_buffers_available\<close>; the results are converted on assignment. The call
  \<open>leds_blink(LEDS_YELLOW)\<close> is external and leaves this state alone.
\<close>

definition data_processor_buffers_on_trigger ::
  "settings_t \<Rightarrow> int \<Rightarrow> buffers_state \<Rightarrow> buffers_state"
where
  "data_processor_buffers_on_trigger ps main_tick_count st =
     (let tick_delta = 10 in
      if s_is_gated st \<or> main_tick_count < s_gate_released_ticks st + tick_delta then st
      else
        let st1 = st\<lparr> s_trigger_count := s_trigger_count st + 1 \<rparr> in
        if s_is_triggered st1 then
          st1\<lparr> s_final_unwrapped_buffer_for_trigger :=
                 float_trunc (float_add (float_of_int (s_unwrapped_filled_buffer_counter st1))
                    (float_mul (float_of_int (s_buffers_per_second st1)) (min_sampling_time_s ps))) \<rparr>
        else
          let st2 = st1\<lparr> s_trigger_unwrapped_buffer_count := s_unwrapped_filled_buffer_counter st1 \<rparr>;
              unexpired_buffers_available =
                uint32_of (MIN_macro (NUM_BUFFERS - BUFFER_DELTA) (s_unwrapped_filled_buffer_counter st2));
              pretrigger_buffer_count =
                uint32_of (float_trunc (MIN_macro
                   (float_mul (float_of_int (s_buffers_per_second st2)) (pretrigger_time_s ps))
                   (float_of_int unexpired_buffers_available)));
              initial_buffer_count =
                uint32_of (uint32_of (s_unwrapped_filled_buffer_counter st2) - pretrigger_buffer_count);
              final_buffer_count =
                uint32_of (float_trunc (float_add (float_of_int (s_unwrapped_filled_buffer_counter st2))
                   (float_mul (float_of_int (s_buffers_per_second st2)) (min_sampling_time_s ps))));
              f1 = buffer_fifo_put (int32_of BUFFERFIFO_START_SEQUENCE) (fifo st2);
              f2 = fold (\<lambda>i. buffer_fifo_put (int32_of i))
                     [initial_buffer_count .. uint32_of (s_unwrapped_filled_buffer_counter st2) - 1] f1
          in st2\<lparr> fifo := f2,
                  s_final_unwrapped_buffer_for_trigger := int32_of final_buffer_count,
                  s_is_triggered := True \<rparr>)"

definition data_processor_buffers_fast_main_processing ::
  "settings_t \<Rightarrow> int \<Rightarrow> trigger_state \<times> buffers_state \<Rightarrow> trigger_state \<times> buffers_state"
where
  "data_processor_buffers_fast_main_processing ps main_tick_count gs =
     (if g_trigger_triggered (fst gs)
      then ((fst gs)\<lparr> g_trigger_triggered := False \<rparr>,
            data_processor_buffers_on_trigger ps main_tick_count (snd gs))
      else gs)"

section \<open>Notions used in the statements\<close>

text \<open>
  The gain-adjusted threshold of bucket \<open>i\<close> as the specification words it: the configured
  threshold shifted right by twice the difference between the shift of the most sensitive
  range and the shift of the active range.
\<close>

definition gain_adjusted_threshold :: "settings_t \<Rightarrow> nat \<Rightarrow> nat \<Rightarrow> int" where
  "gain_adjusted_threshold ps s_logical_index i =
     trigger_thresholds ps ! i div
       2 ^ (2 * nat (gain_shift_for_range GAIN_MAX_RANGE_INDEX - gain_get_shift s_logical_index))"

text \<open>
  A matching bucket: its enable flag is set, its threshold is not the ignore value, and its
  power is at least the gain-adjusted threshold. The match count is the number of matching
  buckets.
\<close>

definition bucket_matches :: "settings_t \<Rightarrow> nat \<Rightarrow> int list \<Rightarrow> nat \<Rightarrow> bool" where
  "bucket_matches ps s_logical_index freq_buckets i \<longleftrightarrow>
     trigger_flags ps ! i \<and>
     trigger_thresholds ps ! i \<noteq> SETTINGS_IGNORE_TRIGGER_VALUE \<and>
     freq_buckets ! i \<ge> gain_adjusted_threshold ps s_logical_index i"

definition match_count :: "settings_t \<Rightarrow> nat \<Rightarrow> int list \<Rightarrow> nat" where
  "match_count ps s_logical_index freq_buckets =
     length (filter (bucket_matches ps s_logical_index freq_buckets) [0..<MAX_TRIGGER_MATCH_CLAUSES])"

text \<open>A sample is an overload when it lies strictly outside the symmetric threshold range.\<close>

definition is_overload :: "16 word \<Rightarrow> bool" where
  "is_overload x \<longleftrightarrow> sint x > SCALE_DOWN_DELTA \<or> sint x < - SCALE_DOWN_DELTA"

text \<open>The control values as they are stored in the FIFO (\<open>int32_t\<close>).\<close>

definition START_TOKEN :: int where
  "START_TOKEN = int32_of BUFFERFIFO_START_SEQUENCE"

definition END_TOKEN :: int where
  "END_TOKEN = int32_of BUFFERFIFO_END_SEQUENCE"

text \<open>
  The tokens waiting in the FIFO, oldest first, and the well-formedness of the FIFO: the
  array has its declared length, the positions are inside it, and the write position is the
  read position advanced by the count.
\<close>

definition fifo_tokens :: "buffer_fifo \<Rightarrow> int list" where
  "fifo_tokens f =
     map (\<lambda>k. s_buffer_fifo f ! ((s_buffer_fifo_next_read f + k) mod BUFFER_FIFO_LENGTH))
       [0..<s_buffer_fifo_count f]"

definition fifo_wf :: "buffer_fifo \<Rightarrow> bool" where
  "fifo_wf f \<longleftrightarrow>
     length (s_buffer_fifo f) = BUFFER_FIFO_LENGTH \<and>
     s_buffer_fifo_next_read f < BUFFER_FIFO_LENGTH \<and>
     s_buffer_fifo_count f \<le> BUFFER_FIFO_LENGTH \<and>
     s_buffer_fifo_next_write f =
       (s_buffer_fifo_next_read f + s_buffer_fifo_count f) mod BUFFER_FIFO_LENGTH"

text \<open>
  The well-formedness of the write cursor: the active slot exists, the pointer is the start of
  that slot, and the slot is not yet full.
\<close>

definition buffers_wf :: "buffers_state \<Rightarrow> bool" where
  "buffers_wf st \<longleftrightarrow>
     0 \<le> s_active_buffer_index st \<and> s_active_buffer_index st < NUM_BUFFERS \<and>
     s_active_buffer_ptr st = s_active_buffer_index st * DATA_BUFFER_ENTRIES \<and>
     0 \<le> s_active_buffer_entry_count st \<and> s_active_buffer_entry_count st < DATA_BUFFER_ENTRIES"

text \<open>
  The sample memory after \<open>n\<close> samples from position \<open>p\<close> of \<open>src\<close> have been stored from
  address \<open>d\<close> on; the slot that follows the active one; and the address at which a call
  of \<open>data_processor_buffers\<close> stores its \<open>i\<close>-th sample: behind the entries of the active
  slot while there is room, and from the start of the next slot on after that.
\<close>

definition with_samples ::
  "(int \<Rightarrow> 16 word) \<Rightarrow> int \<Rightarrow> int \<Rightarrow> (int \<Rightarrow> 16 word) \<Rightarrow> int \<Rightarrow> (int \<Rightarrow> 16 word)"
where
  "with_samples mem d n src p = (\<lambda>a. if d \<le> a \<and> a < d + n then src (p + (a - d)) else mem a)"

definition next_slot :: "buffers_state \<Rightarrow> int" where
  "next_slot st =
     (if s_active_buffer_index st + 1 \<ge> NUM_BUFFERS then 0 else s_active_buffer_index st + 1)"

definition sample_address :: "buffers_state \<Rightarrow> int \<Rightarrow> int" where
  "sample_address st i =
     (let free = DATA_BUFFER_ENTRIES - s_active_buffer_entry_count st
      in if i < free then s_active_buffer_ptr st + s_active_buffer_entry_count st + i
         else next_slot st * DATA_BUFFER_ENTRIES + (i - free))"

text \<open>
  A run of calls of \<open>data_processor_buffers\<close>, each with a full buffer of samples (the
  \<open>DATA_BUFFER_ENTRIES\<close> samples at the start of its source), so that each call completes one
  slot.
\<close>

primrec append_buffers ::
  "(int \<Rightarrow> 16 word) list \<Rightarrow> settings_t \<Rightarrow> buffers_state \<Rightarrow> buffers_state option"
where
  "append_buffers [] ps st = Some st"
| "append_buffers (src # srcs) ps st =
     (case data_processor_buffers ps src 0 DATA_BUFFER_ENTRIES st of
        None \<Rightarrow> None
      | Some st1 \<Rightarrow> append_buffers srcs ps st1)"

text \<open>
  The configured durations in buffers: the \<open>float\<close> products of \<open>s_buffers_per_second\<close> with
  the pretrigger time and with the minimum sampling time, converted to an integer, and the
  number of pretrigger buffers that a trigger at fill counter \<open>k\<close> backfills.
\<close>

definition pretrigger_buffers :: "settings_t \<Rightarrow> buffers_state \<Rightarrow> int" where
  "pretrigger_buffers ps st =
     float_trunc (float_mul (float_of_int (s_buffers_per_second st)) (pretrigger_time_s ps))"

definition minimum_buffers :: "settings_t \<Rightarrow> buffers_state \<Rightarrow> int" where
  "minimum_buffers ps st =
     float_trunc (float_mul (float_of_int (s_buffers_per_second st)) (min_sampling_time_s ps))"

definition backfill_count :: "settings_t \<Rightarrow> buffers_state \<Rightarrow> int" where
  "backfill_count ps st =
     min (pretrigger_buffers ps st)
         (min (NUM_BUFFERS - BUFFER_DELTA) (s_unwrapped_filled_buffer_counter st))"

text \<open>A trigger is accepted when the gate is clear and the hold-off after its release is over.\<close>

definition trigger_accepted :: "int \<Rightarrow> buffers_state \<Rightarrow> bool" where
  "trigger_accepted main_tick_count st \<longleftrightarrow>
     \<not> s_is_gated st \<and> s_gate_released_ticks st + 10 \<le> main_tick_count"

text \<open>
  How \<open>dataprocessor_buffers_get_next\<close> classifies a token: the control values (compared
  unsigned), a stale index (the slot has been overwritten or is the one being written), and a
  future index. A data token is retained when it is neither stale nor in the future.
\<close>

definition is_end_token :: "int \<Rightarrow> bool" where
  "is_end_token t \<longleftrightarrow> uint32_of t = BUFFERFIFO_END_SEQUENCE"

definition is_start_token :: "int \<Rightarrow> bool" where
  "is_start_token t \<longleftrightarrow> uint32_of t = BUFFERFIFO_START_SEQUENCE"

definition is_stale :: "buffers_state \<Rightarrow> int \<Rightarrow> bool" where
  "is_stale st t \<longleftrightarrow> t < s_unwrapped_filled_buffer_counter st - NUM_BUFFERS + 1"

definition is_future :: "buffers_state \<Rightarrow> int \<Rightarrow> bool" where
  "is_future st t \<longleftrightarrow> t \<ge> s_unwrapped_filled_buffer_counter st"

text \<open>
  The states of a session: \<open>data_processor_buffers_reset\<close> starts it (the FIFO array keeps
  its declared length and whatever it held), and then the producer steps (a call of
  \<open>data_processor_buffers\<close> that stays inside \<open>s_buffers\<close>, a trigger event) and the consumer
  steps (a call of \<open>dataprocessor_buffers_get_next\<close>, and the signal
  \<open>data_processor_buffers_on_recording_complete\<close> once the FIFO has been drained) follow in
  any order, with any arguments.
\<close>

inductive reachable :: "settings_t \<Rightarrow> data_processor_mode_t \<Rightarrow> int \<Rightarrow> buffers_state \<Rightarrow> bool"
  for ps :: settings_t and mode :: data_processor_mode_t and samples_per_second :: int
where
  reach_reset:
    "length (s_buffer_fifo (fifo st0)) = BUFFER_FIFO_LENGTH \<Longrightarrow>
     reachable ps mode samples_per_second (data_processor_buffers_reset mode samples_per_second st0)"
| reach_append:
    "reachable ps mode samples_per_second st \<Longrightarrow>
     data_processor_buffers ps pDMABuffer dma_buffer_offset count st = Some st' \<Longrightarrow>
     reachable ps mode samples_per_second st'"
| reach_trigger:
    "reachable ps mode samples_per_second st \<Longrightarrow>
     reachable ps mode samples_per_second (data_processor_buffers_on_trigger ps main_tick_count st)"
| reach_get_next:
    "reachable ps mode samples_per_second st \<Longrightarrow>
     reachable ps mode samples_per_second (snd (snd (dataprocessor_buffers_get_next ps st)))"
| reach_recording_complete:
    "reachable ps mode samples_per_second st \<Longrightarrow>
     s_buffer_fifo_count (fifo st) = 0 \<Longrightarrow>
     reachable ps mode samples_per_second
       (data_processor_buffers_on_recording_complete ps main_tick_count st)"

text \<open>
  What holds throughout a session with gated recording: the fill counter and the buffers per
  second are not negative, the FIFO is well-formed and holds at most \<open>2 * NUM_BUFFERS + 1\<close>
  entries, and while the gate is clear it holds at most \<open>NUM_BUFFERS\<close> entries when no
  trigger is active and at most \<open>2 * NUM_BUFFERS - 1\<close> when one is.
\<close>

definition gated_invariant :: "buffers_state \<Rightarrow> bool" where
  "gated_invariant st \<longleftrightarrow>
     0 \<le> s_unwrapped_filled_buffer_counter st \<and>
     0 \<le> s_buffers_per_second st \<and>
     fifo_wf (fifo st) \<and>
     int (s_buffer_fifo_count (fifo st)) \<le> 2 * NUM_BUFFERS + 1 \<and>
     (\<not> s_is_gated st \<longrightarrow>
        int (s_buffer_fifo_count (fifo st)) \<le>
          (if s_is_triggered st then 2 * NUM_BUFFERS - 1 else NUM_BUFFERS))"

text \<open>
  The freshly computed final index of a trigger: the \<open>float\<close> sum of the fill counter and of
  the product of \<open>s_buffers_per_second\<close> with the minimum sampling time, converted to an
  integer. Throughout a session the final index does not exceed it (as long as it fits an
  \<open>int32_t\<close>).
\<close>

definition fresh_final :: "settings_t \<Rightarrow> buffers_state \<Rightarrow> int" where
  "fresh_final ps st =
     float_trunc (float_add (float_of_int (s_unwrapped_filled_buffer_counter st))
        (float_mul (float_of_int (s_buffers_per_second st)) (min_sampling_time_s ps)))"

definition final_invariant :: "settings_t \<Rightarrow> buffers_state \<Rightarrow> bool" where
  "final_invariant ps st \<longleftrightarrow>
     0 \<le> s_unwrapped_filled_buffer_counter st \<and>
     0 \<le> s_buffers_per_second st \<and>
     (fresh_final ps st < 2 ^ 31 \<longrightarrow> s_final_unwrapped_buffer_for_trigger st \<le> fresh_final ps st)"

section \<open>Example inputs\<close>

definition example_settings :: settings_t where
  "example_settings =
     \<lparr> min_sampling_time_s = 2, trigger_max_count = 2, pretrigger_time_s = 1 / 2,
       trigger_thresholds = [- 1, - 1, 400, 400, 400, 400, - 1, - 1, - 1, - 1, - 1, - 1, - 1, - 1, - 1, - 1],
       trigger_flags = [False, False, True, True, True, True, False, False,
                        False, False, False, False, False, False, False, False],
       gated_recording = False \<rparr>"

definition two_matches :: "int list" where
  "two_matches = [0, 0, 399, 400, 500, 0, 0, 0, 0, 0, 0, 0, 0, 0, 0, 0]"

definition three_matches :: "int list" where
  "three_matches = [0, 0, 399, 400, 500, 500, 0, 0, 0, 0, 0, 0, 0, 0, 0, 0]"

definition no_matches :: "int list" where
  "no_matches = [0, 0, 399, 0, 0, 0, 0, 0, 0, 0, 0, 0, 0, 0, 0, 0]"

definition gain_example_settings :: settings_t where
  "gain_example_settings =
     \<lparr> min_sampling_time_s = 2, trigger_max_count = 16, pretrigger_time_s = 1 / 2,
       trigger_thresholds = [8, - 1, - 1, - 1, - 1, - 1, - 1, - 1, - 1, - 1, - 1, - 1, - 1, - 1, - 1, - 1],
       trigger_flags = [True, False, False, False, False, False, False, False,
                        False, False, False, False, False, False, False, False],
       gated_recording = False \<rparr>"

text \<open>The same settings with a threshold that is not a multiple of four.\<close>

definition odd_threshold_settings :: settings_t where
  "odd_threshold_settings =
     gain_example_settings
       \<lparr>trigger_thresholds := [5, - 1, - 1, - 1, - 1, - 1, - 1, - 1, - 1, - 1, - 1, - 1, - 1, - 1, - 1, - 1]\<rparr>"

definition gain_example_buckets :: "int list" where
  "gain_example_buckets = [1, 0, 0, 0, 0, 0, 0, 0, 0, 0, 0, 0, 0, 0, 0, 0]"

definition gain_example_buckets2 :: "int list" where
  "gain_example_buckets2 = [2, 0, 0, 0, 0, 0, 0, 0, 0, 0, 0, 0, 0, 0, 0, 0]"

text \<open>A stand-in for the FFT chain that reports the same bucket powers for every window.\<close>

definition example_fft_power :: "16 word list \<Rightarrow> int list" where
  "example_fft_power w = [0, 0, 399, 400, 500, 0, 0, 0, 0, 0, 0, 0, 0, 0, 0, 0]"

definition example_acquisition_state :: acquisition_state where
  "example_acquisition_state =
     \<lparr> s_raw_buffer_q15 = [0, 0, 0, 0],
       s_signal_offset_correction = 3,
       g_raw_half_frame = Some 0,
       g_raw_half_frame_counter = 7,
       g_raw_half_frame_ready = True,
       leds_red_single_blinks = 0 \<rparr>"

definition example_trigger_state :: trigger_state where
  "example_trigger_state = \<lparr> g_trigger_triggered = False, s_counter = 0 \<rparr>"

definition example_dmabuffer :: "16 word list" where
  "example_dmabuffer = [0x8064, 0xFFFF, 0x8000, 0x0000]"

definition no_processor :: "(16 word list \<Rightarrow> nat \<Rightarrow> unit \<Rightarrow> unit) option" where
  "no_processor = None"

text \<open>
  A triggered-mode session at 384 kHz (11 buffers per second) in which 50 buffers have been
  filled, so that slot 13 is the active one.
\<close>

definition example_ring_state :: buffers_state where
  "example_ring_state =
     (data_processor_buffers_reset DATA_PROCESSOR_TRIGGERED 384000 initial_buffers_state)
       \<lparr> s_unwrapped_filled_buffer_counter := 50,
         s_active_buffer_index := 13,
         s_active_buffer_ptr := 13 * DATA_BUFFER_ENTRIES \<rparr>"

text \<open>The state right after \<open>data_processor_buffers_reset\<close> in triggered mode.\<close>

definition reset_state :: buffers_state where
  "reset_state = data_processor_buffers_reset DATA_PROCESSOR_TRIGGERED 384000 initial_buffers_state"

text \<open>
  A gated session that is triggered and writing to SD card: the gate is set, 50 buffers have
  been filled and the trigger window runs to buffer 60.
\<close>

definition gated_triggered_state :: buffers_state where
  "gated_triggered_state =
     example_ring_state \<lparr> s_is_triggered := True, s_is_gated := True,
                          s_final_unwrapped_buffer_for_trigger := 60 \<rparr>"

text \<open>
  A continuous session whose active slot is the last but one, with one free entry left.
\<close>

definition nearly_full_state :: buffers_state where
  "nearly_full_state =
     (data_processor_buffers_reset DATA_PROCESSOR_CONTINUOUS 384000 initial_buffers_state)
       \<lparr> s_unwrapped_filled_buffer_counter := 35,
         s_active_buffer_index := 35,
         s_active_buffer_ptr := 35 * DATA_BUFFER_ENTRIES,
         s_active_buffer_entry_count := DATA_BUFFER_ENTRIES - 1 \<rparr>"

text \<open>Sample memory that holds the same sample everywhere.\<close>

definition silence :: "int \<Rightarrow> 16 word" where
  "silence a = 0"

text \<open>Settings with gated recording on.\<close>

definition gated_settings :: settings_t where
  "gated_settings = example_settings\<lparr>gated_recording := True\<rparr>"

text \<open>
  A gated continuous session in which 37 slots have been completed and put, so that the FIFO
  holds the 37 entries 0 to 36 and slot 0 is the active one again.
\<close>

definition gated_continuous_state :: buffers_state where
  "gated_continuous_state =
     (data_processor_buffers_reset DATA_PROCESSOR_CONTINUOUS 384000 initial_buffers_state)
       \<lparr> s_unwrapped_filled_buffer_counter := 37,
         fifo := \<lparr> s_buffer_fifo = map int [0..<37] @ replicate 148 0,
                   s_buffer_fifo_next_read = 0,
                   s_buffer_fifo_next_write = 37,
                   s_buffer_fifo_count = 37 \<rparr> \<rparr>"

text \<open>
  The triggered-mode session with 50 buffers filled, whose FIFO holds a stale index, a future
  index and two retained ones.
\<close>

definition stale_fifo_state :: buffers_state where
  "stale_fifo_state =
     example_ring_state
       \<lparr> fifo := \<lparr> s_buffer_fifo = [3, 60, 45, 46] @ replicate 181 0,
                   s_buffer_fifo_next_read = 0,
                   s_buffer_fifo_next_write = 4,
                   s_buffer_fifo_count = 4 \<rparr> \<rparr>"

text \<open>
  \<open>n\<close> calls of \<open>data_processor_buffers\<close> in a row, each with a full buffer of samples, and
  no consumer step in between.
\<close>

primrec fill_slots :: "nat \<Rightarrow> settings_t \<Rightarrow> buffers_state \<Rightarrow> buffers_state option" where
  "fill_slots 0 ps st = Some st"
| "fill_slots (Suc n) ps st =
     (case fill_slots n ps st of
        None \<Rightarrow> None
      | Some st1 \<Rightarrow> data_processor_buffers ps silence 0 DATA_BUFFER_ENTRIES st1)"

definition continuous_reset_state :: buffers_state where
  "continuous_reset_state =
     data_processor_buffers_reset DATA_PROCESSOR_CONTINUOUS 384000 initial_buffers_state"

text \<open>
  A triggered session right after its first trigger: reset, then a trigger event at main
  tick 20.
\<close>

definition first_trigger_state :: buffers_state where
  "first_trigger_state = data_processor_buffers_on_trigger example_settings 20 reset_state"

text \<open>
  Gated settings with a pretrigger time of two seconds, and a triggered session under them,
  14 completed slots after a trigger at fill counter 50 that backfilled 22 buffers: the FIFO
  holds START and the indices 28 to 63, 37 entries, and the trigger window lasts until
  index 72.
\<close>

definition deep_pretrigger_settings :: settings_t where
  "deep_pretrigger_settings = gated_settings\<lparr>pretrigger_time_s := 2\<rparr>"

definition gated_window_state :: buffers_state where
  "gated_window_state =
     example_ring_state
       \<lparr> s_unwrapped_filled_buffer_counter := 64,
         s_active_buffer_index := 27,
         s_active_buffer_ptr := 27 * DATA_BUFFER_ENTRIES,
         s_is_triggered := True,
         s_trigger_unwrapped_buffer_count := 50,
         s_final_unwrapped_buffer_for_trigger := 72,
         fifo := \<lparr> s_buffer_fifo = [- 2] @ [28 .. 63] @ replicate 148 0,
                   s_buffer_fifo_next_read = 0,
                   s_buffer_fifo_next_write = 37,
                   s_buffer_fifo_count = 37 \<rparr> \<rparr>"

text \<open>Sample memory that holds a ramp: the sample at position \<open>a\<close> is \<open>a\<close>.\<close>

definition ramp :: "int \<Rightarrow> 16 word" where
  "ramp a = word_of_int a"

text \<open>
  The triggered-mode session late in a long run: \<open>2 ^ 24 + 1\<close> buffers have been filled, a
  fill counter that is not a \<open>float\<close>.
\<close>

definition late_ring_state :: buffers_state where
  "late_ring_state =
     example_ring_state
       \<lparr> s_unwrapped_filled_buffer_counter := 16777217,
         s_active_buffer_index := 11,
         s_active_buffer_ptr := 11 * DATA_BUFFER_ENTRIES \<rparr>"

text \<open>
  The same late session while a trigger is active, with the final index ten buffers ahead.
\<close>

definition late_retrigger_state :: buffers_state where
  "late_retrigger_state =
     late_ring_state\<lparr> s_is_triggered := True, s_final_unwrapped_buffer_for_trigger := 16777227 \<rparr>"

section \<open>The trigger decision\<close>

lemma all_less_list_all: "(\<forall>i<n. P i) \<longleftrightarrow> list_all P [0..<n]"
  by (auto simp add: list_all_iff)

lemma shift_right_twice: "shift_right (shift_right x n) n = x div 2 ^ (2 * nat n)"
proof -
  have "x div 2 ^ nat n div 2 ^ nat n = x div (2 ^ nat n * 2 ^ nat n)"
    by (simp add: zdiv_zmult2_eq)
  also have "(2::int) ^ nat n * 2 ^ nat n = 2 ^ (2 * nat n)"
    by (simp add: power_add [symmetric] mult_2)
  finally show ?thesis by (simp add: shift_right_def)
qed

lemma fst_check_bucket:
  "fst (check_bucket ps sfg fb i acc) =
     fst acc + (if trigger_flags ps ! i \<and>
        trigger_thresholds ps ! i \<noteq> SETTINGS_IGNORE_TRIGGER_VALUE \<and>
        fb ! i \<ge> trigger_thresholds ps ! i div 2 ^ (2 * nat sfg) then 1 else 0)"
  by (simp add: check_bucket_def shift_right_twice Let_def)

lemma fold_check_bucket_count:
  "fst (fold (check_bucket ps sfg fb) xs acc) =
     fst acc + int (length (filter (\<lambda>i. trigger_flags ps ! i \<and>
        trigger_thresholds ps ! i \<noteq> SETTINGS_IGNORE_TRIGGER_VALUE \<and>
        fb ! i \<ge> trigger_thresholds ps ! i div 2 ^ (2 * nat sfg)) xs))"
proof (induction xs arbitrary: acc)
  case Nil
  show ?case by simp
next
  case (Cons i xs)
  have "fst (fold (check_bucket ps sfg fb) (i # xs) acc) =
        fst (fold (check_bucket ps sfg fb) xs (check_bucket ps sfg fb i acc))"
    by simp
  also have "\<dots> = fst (check_bucket ps sfg fb i acc) + int (length (filter (\<lambda>i. trigger_flags ps ! i \<and>
        trigger_thresholds ps ! i \<noteq> SETTINGS_IGNORE_TRIGGER_VALUE \<and>
        fb ! i \<ge> trigger_thresholds ps ! i div 2 ^ (2 * nat sfg)) xs))"
    by (rule Cons.IH)
  finally show ?case
    by (simp add: fst_check_bucket)
qed

lemma bucket_matches_eq:
  "bucket_matches ps idx fb = (\<lambda>i. trigger_flags ps ! i \<and>
        trigger_thresholds ps ! i \<noteq> SETTINGS_IGNORE_TRIGGER_VALUE \<and>
        fb ! i \<ge> trigger_thresholds ps ! i div
          2 ^ (2 * nat (gain_shift_for_range GAIN_MAX_RANGE_INDEX - gain_get_shift idx)))"
  by (rule ext) (simp add: bucket_matches_def gain_adjusted_threshold_def)

lemma check_for_trigger_count:
  "fst (check_for_trigger ps idx fb ms) \<longleftrightarrow>
     0 < match_count ps idx fb \<and> int (match_count ps idx fb) \<le> trigger_max_count ps"
  by (simp add: check_for_trigger_def Let_def fold_check_bucket_count match_count_def
      bucket_matches_eq)

text \<open>
  Claim C1. For every bucket-power vector, settings snapshot and active gain range, the
  decision of \<open>check_for_trigger\<close> is true exactly when the number of matching buckets is
  greater than 0 and at most \<open>trigger_max_count\<close>. In particular a match count of 0 and a
  match count of \<open>trigger_max_count + 1\<close> give no trigger.
\<close>

theorem check_for_trigger_iff_match_count:
  "(fst (check_for_trigger ps idx fb ms) \<longleftrightarrow>
      0 < match_count ps idx fb \<and> int (match_count ps idx fb) \<le> trigger_max_count ps) \<and>
   (match_count ps idx fb = 0 \<longrightarrow> \<not> fst (check_for_trigger ps idx fb ms)) \<and>
   (int (match_count ps idx fb) = trigger_max_count ps + 1 \<longrightarrow>
      \<not> fst (check_for_trigger ps idx fb ms))"
  by (simp add: check_for_trigger_count)

theorem check_for_trigger_witness:
  "match_count example_settings 4 two_matches = 2 \<and>
   fst (check_for_trigger example_settings 4 two_matches None) \<and>
   int (match_count example_settings 4 three_matches) = trigger_max_count example_settings + 1 \<and>
   \<not> fst (check_for_trigger example_settings 4 three_matches None) \<and>
   match_count example_settings 4 no_matches = 0 \<and>
   \<not> fst (check_for_trigger example_settings 4 no_matches None)"
proof -
  have a: "match_count example_settings 4 two_matches = 2"
    by code_simp
  have b: "int (match_count example_settings 4 three_matches) = trigger_max_count example_settings + 1"
    by code_simp
  have c: "match_count example_settings 4 no_matches = 0"
    by code_simp
  have d: "trigger_max_count example_settings = 2"
    by (simp add: example_settings_def)
  show ?thesis
    using check_for_trigger_iff_match_count [of example_settings 4 two_matches None]
      check_for_trigger_iff_match_count [of example_settings 4 three_matches None]
      check_for_trigger_iff_match_count [of example_settings 4 no_matches None]
      a b c d
    by simp
qed

subsection \<open>Gain compensation\<close>

lemma gain_shift_values:
  "gain_shift_for_range GAIN_MAX_RANGE_INDEX = 4"
  "gain_get_shift GAIN_MAX_RANGE_INDEX = 4"
  "gain_get_shift (GAIN_MAX_RANGE_INDEX - 1) = 3"
  "gain_get_shift (GAIN_MAX_RANGE_INDEX - Suc 0) = 3"
  by (simp_all add: gain_shift_for_range_def gain_get_shift_def GAIN_MAX_RANGE_INDEX_def
      s_gain_shifts_def)

lemma quadruple_ge_iff:
  fixes p t :: int
  assumes "4 dvd t"
  shows "t \<le> 4 * p \<longleftrightarrow> t div 4 \<le> p"
  using assms by (elim dvdE) simp

lemma quarter_le_iff:
  fixes p t :: int
  shows "t div 4 \<le> p \<longleftrightarrow> t \<le> 4 * p + 3"
  by presburger

lemma bucket_matches_raised:
  assumes "i < length fb"
    and "trigger_flags ps ! i \<and> trigger_thresholds ps ! i \<noteq> SETTINGS_IGNORE_TRIGGER_VALUE
           \<longrightarrow> 4 dvd trigger_thresholds ps ! i"
  shows "bucket_matches ps GAIN_MAX_RANGE_INDEX (map (\<lambda>p. 4 * p) fb) i =
         bucket_matches ps (GAIN_MAX_RANGE_INDEX - 1) fb i"
  using assms
  by (auto simp add: bucket_matches_def gain_adjusted_threshold_def gain_shift_values
      quadruple_ge_iff)

lemma bucket_matches_credited:
  assumes "i < length fb"
  shows "bucket_matches ps GAIN_MAX_RANGE_INDEX (map (\<lambda>p. 4 * p + 3) fb) i =
         bucket_matches ps (GAIN_MAX_RANGE_INDEX - 1) fb i"
  using assms
  by (auto simp add: bucket_matches_def gain_adjusted_threshold_def gain_shift_values
      quarter_le_iff)

lemma bucket_matches_lowered:
  assumes "i < length fb"
    and "bucket_matches ps GAIN_MAX_RANGE_INDEX (map (\<lambda>p. 4 * p) fb) i"
  shows "bucket_matches ps (GAIN_MAX_RANGE_INDEX - 1) fb i"
proof -
  have "t div 4 \<le> q" if "t \<le> 4 * q" for t q :: int
    using that by presburger
  then show ?thesis
    using assms
    by (auto simp add: bucket_matches_def gain_adjusted_threshold_def gain_shift_values)
qed

text \<open>
  Claim C9, as stated: at the range one step below maximum sensitivity, evaluating with the
  bucket powers of the same physical signal at the raised range (amplitude doubled, so power
  times four) and the thresholds halved gives the same decision. It fails: with a single
  enabled bucket of threshold 8 and power 1 the original evaluation compares 1 with
  \<open>8 >> 2 = 2\<close> and does not trigger, while at the raised range the power 4 reaches the halved
  threshold 4 (and the quartered threshold 2 as well). Leaving the thresholds as they are
  does not make the decisions agree for every threshold either: with the threshold 5 and
  power 1 the original evaluation compares 1 with \<open>5 >> 2 = 1\<close> and triggers, while at the
  raised range the power 4 stays below the threshold 5.
\<close>

theorem halved_thresholds_counterexample:
  "(fst (check_for_trigger gain_example_settings (GAIN_MAX_RANGE_INDEX - 1) gain_example_buckets None) = False \<and>
    fst (check_for_trigger
           (gain_example_settings\<lparr>trigger_thresholds :=
              map (\<lambda>t. t div 2) (trigger_thresholds gain_example_settings)\<rparr>)
           GAIN_MAX_RANGE_INDEX (map (\<lambda>p. 4 * p) gain_example_buckets) None) = True \<and>
    fst (check_for_trigger
           (gain_example_settings\<lparr>trigger_thresholds :=
              map (\<lambda>t. t div 4) (trigger_thresholds gain_example_settings)\<rparr>)
           GAIN_MAX_RANGE_INDEX (map (\<lambda>p. 4 * p) gain_example_buckets) None) = True) \<and>
   (fst (check_for_trigger odd_threshold_settings (GAIN_MAX_RANGE_INDEX - 1) gain_example_buckets None) = True \<and>
    fst (check_for_trigger odd_threshold_settings GAIN_MAX_RANGE_INDEX
           (map (\<lambda>p. 4 * p) gain_example_buckets) None) = False)"
  by code_simp

text \<open>
  Claim C9, amended. The code itself compensates for the gain: it shifts each configured
  threshold right by twice the difference between the shift of the most sensitive range and
  the shift of the active range, which rounds the quartered threshold down. So at the range
  one step below maximum sensitivity, for every threshold vector, the decision for bucket
  powers \<open>fb\<close> is the decision at the raised range with the configured thresholds left as
  they are for the powers \<open>4 * p + 3\<close>: the powers of the same physical signal (four times
  \<open>fb\<close>), each credited with the three units that the shift drops. A bucket that matches at
  the raised range for the powers \<open>4 * p\<close> matches at the lower range for \<open>p\<close>, and when every
  enabled, non-ignored threshold is a multiple of 4 (nothing is lost in the shift) the two
  decisions are the same.
\<close>

theorem gain_step_same_decision:
  assumes "length fb = MAX_TRIGGER_MATCH_CLAUSES"
  shows "fst (check_for_trigger ps (GAIN_MAX_RANGE_INDEX - 1) fb ms) =
           fst (check_for_trigger ps GAIN_MAX_RANGE_INDEX (map (\<lambda>p. 4 * p + 3) fb) ms) \<and>
         (\<forall>i<MAX_TRIGGER_MATCH_CLAUSES.
            bucket_matches ps GAIN_MAX_RANGE_INDEX (map (\<lambda>p. 4 * p) fb) i \<longrightarrow>
            bucket_matches ps (GAIN_MAX_RANGE_INDEX - 1) fb i) \<and>
         ((\<forall>i<MAX_TRIGGER_MATCH_CLAUSES.
             trigger_flags ps ! i \<and> trigger_thresholds ps ! i \<noteq> SETTINGS_IGNORE_TRIGGER_VALUE
             \<longrightarrow> 4 dvd trigger_thresholds ps ! i) \<longrightarrow>
          fst (check_for_trigger ps GAIN_MAX_RANGE_INDEX (map (\<lambda>p. 4 * p) fb) ms) =
            fst (check_for_trigger ps (GAIN_MAX_RANGE_INDEX - 1) fb ms)) \<and>
         (\<forall>i. gain_adjusted_threshold ps (GAIN_MAX_RANGE_INDEX - 1) i =
               shift_right (trigger_thresholds ps ! i)
                 (2 * (gain_shift_for_range GAIN_MAX_RANGE_INDEX -
                       gain_get_shift (GAIN_MAX_RANGE_INDEX - 1)))) \<and>
         (fst (check_for_trigger ps (GAIN_MAX_RANGE_INDEX - 1) fb ms) \<longleftrightarrow>
            0 < match_count ps (GAIN_MAX_RANGE_INDEX - 1) fb \<and>
            int (match_count ps (GAIN_MAX_RANGE_INDEX - 1) fb) \<le> trigger_max_count ps)"
proof -
  have "filter (bucket_matches ps GAIN_MAX_RANGE_INDEX (map (\<lambda>p. 4 * p + 3) fb)) [0..<MAX_TRIGGER_MATCH_CLAUSES] =
        filter (bucket_matches ps (GAIN_MAX_RANGE_INDEX - 1) fb) [0..<MAX_TRIGGER_MATCH_CLAUSES]"
    using assms by (intro filter_cong refl bucket_matches_credited) auto
  then have credited: "match_count ps GAIN_MAX_RANGE_INDEX (map (\<lambda>p. 4 * p + 3) fb) =
             match_count ps (GAIN_MAX_RANGE_INDEX - 1) fb"
    by (simp add: match_count_def)
  have lowered: "\<forall>i<MAX_TRIGGER_MATCH_CLAUSES.
            bucket_matches ps GAIN_MAX_RANGE_INDEX (map (\<lambda>p. 4 * p) fb) i \<longrightarrow>
            bucket_matches ps (GAIN_MAX_RANGE_INDEX - 1) fb i"
    using assms bucket_matches_lowered [of _ fb ps] by simp
  have exact: "match_count ps GAIN_MAX_RANGE_INDEX (map (\<lambda>p. 4 * p) fb) =
             match_count ps (GAIN_MAX_RANGE_INDEX - 1) fb"
    if dv: "\<forall>i<MAX_TRIGGER_MATCH_CLAUSES.
             trigger_flags ps ! i \<and> trigger_thresholds ps ! i \<noteq> SETTINGS_IGNORE_TRIGGER_VALUE
             \<longrightarrow> 4 dvd trigger_thresholds ps ! i"
  proof -
    have "filter (bucket_matches ps GAIN_MAX_RANGE_INDEX (map (\<lambda>p. 4 * p) fb)) [0..<MAX_TRIGGER_MATCH_CLAUSES] =
          filter (bucket_matches ps (GAIN_MAX_RANGE_INDEX - 1) fb) [0..<MAX_TRIGGER_MATCH_CLAUSES]"
      using assms dv by (intro filter_cong refl bucket_matches_raised) auto
    then show ?thesis by (simp add: match_count_def)
  qed
  have shift: "\<forall>i. gain_adjusted_threshold ps (GAIN_MAX_RANGE_INDEX - 1) i =
               shift_right (trigger_thresholds ps ! i)
                 (2 * (gain_shift_for_range GAIN_MAX_RANGE_INDEX -
                       gain_get_shift (GAIN_MAX_RANGE_INDEX - 1)))"
    by (simp add: gain_adjusted_threshold_def shift_right_def gain_shift_values)
  show ?thesis
    using credited lowered exact shift by (simp add: check_for_trigger_count)
qed

theorem gain_step_witness:
  "length gain_example_buckets2 = MAX_TRIGGER_MATCH_CLAUSES \<and>
   fst (check_for_trigger gain_example_settings GAIN_MAX_RANGE_INDEX
          (map (\<lambda>p. 4 * p) gain_example_buckets2) None) =
   fst (check_for_trigger gain_example_settings (GAIN_MAX_RANGE_INDEX - 1) gain_example_buckets2 None) \<and>
   fst (check_for_trigger gain_example_settings (GAIN_MAX_RANGE_INDEX - 1) gain_example_buckets2 None) \<and>
   fst (check_for_trigger odd_threshold_settings (GAIN_MAX_RANGE_INDEX - 1) gain_example_buckets None) =
   fst (check_for_trigger odd_threshold_settings GAIN_MAX_RANGE_INDEX
          (map (\<lambda>p. 4 * p + 3) gain_example_buckets) None)"
proof -
  have len: "length gain_example_buckets2 = MAX_TRIGGER_MATCH_CLAUSES"
    "length gain_example_buckets = MAX_TRIGGER_MATCH_CLAUSES"
    by (simp_all add: MAX_TRIGGER_MATCH_CLAUSES_def gain_example_buckets2_def gain_example_buckets_def)
  have dv: "\<forall>i<MAX_TRIGGER_MATCH_CLAUSES.
           trigger_flags gain_example_settings ! i \<and>
           trigger_thresholds gain_example_settings ! i \<noteq> SETTINGS_IGNORE_TRIGGER_VALUE
           \<longrightarrow> 4 dvd trigger_thresholds gain_example_settings ! i"
    unfolding all_less_list_all by code_simp
  have t: "fst (check_for_trigger gain_example_settings (GAIN_MAX_RANGE_INDEX - 1) gain_example_buckets2 None)"
    by code_simp
  note T1 = gain_step_same_decision [OF len(1), of gain_example_settings None]
  note T2 = gain_step_same_decision [OF len(2), of odd_threshold_settings None]
  have a: "fst (check_for_trigger gain_example_settings GAIN_MAX_RANGE_INDEX
          (map (\<lambda>p. 4 * p) gain_example_buckets2) None) =
      fst (check_for_trigger gain_example_settings (GAIN_MAX_RANGE_INDEX - 1) gain_example_buckets2 None)"
    using T1 dv by blast
  have b: "fst (check_for_trigger odd_threshold_settings (GAIN_MAX_RANGE_INDEX - 1) gain_example_buckets None) =
      fst (check_for_trigger odd_threshold_settings GAIN_MAX_RANGE_INDEX
          (map (\<lambda>p. 4 * p + 3) gain_example_buckets) None)"
    using T2 by blast
  show ?thesis
    using len(1) a t b by blast
qed

subsection \<open>The race guard\<close>

lemma trigger_main_fast_processing_snd:
  "snd (trigger_main_fast_processing fft_power half_samples ps idx raw count2 (acq, trg)) =
     (if g_raw_half_frame_ready acq \<and> check_each_window fft_power half_samples ps idx raw \<and>
         count2 = g_raw_half_frame_counter acq
      then trg\<lparr>s_counter := s_counter trg + 1, g_trigger_triggered := True\<rparr>
      else trg)"
  by (simp add: trigger_main_fast_processing_def Let_def)

text \<open>
  Claim C6. In every evaluation cycle of \<open>trigger_main_fast_processing\<close>: when the evaluation
  of the half frame reports a trigger but the generation counter read after the evaluation
  differs from the one read before it, the trigger flag is not published and the trigger
  state stays as it was; the flag goes from clear to set only when the evaluation triggered
  and the two reads are equal, and in that case (with a half frame ready) it is set.
\<close>

theorem trigger_race_guard:
  "(check_each_window fft_power half_samples ps idx raw \<and> count2 \<noteq> g_raw_half_frame_counter acq \<longrightarrow>
      snd (trigger_main_fast_processing fft_power half_samples ps idx raw count2 (acq, trg)) = trg) \<and>
   (g_trigger_triggered (snd (trigger_main_fast_processing fft_power half_samples ps idx raw count2 (acq, trg))) \<and>
      \<not> g_trigger_triggered trg \<longrightarrow>
      check_each_window fft_power half_samples ps idx raw \<and> count2 = g_raw_half_frame_counter acq) \<and>
   (g_raw_half_frame_ready acq \<and> check_each_window fft_power half_samples ps idx raw \<and>
      count2 = g_raw_half_frame_counter acq \<longrightarrow>
      g_trigger_triggered (snd (trigger_main_fast_processing fft_power half_samples ps idx raw count2 (acq, trg))))"
  by (simp add: trigger_main_fast_processing_snd)

theorem trigger_race_guard_witness:
  "check_each_window example_fft_power 32 example_settings 4 [] \<and>
   8 \<noteq> g_raw_half_frame_counter example_acquisition_state \<and>
   snd (trigger_main_fast_processing example_fft_power 32 example_settings 4 [] 8
         (example_acquisition_state, example_trigger_state)) = example_trigger_state \<and>
   g_trigger_triggered (snd (trigger_main_fast_processing example_fft_power 32 example_settings 4 [] 7
         (example_acquisition_state, example_trigger_state)))"
proof -
  have a: "check_each_window example_fft_power 32 example_settings 4 []"
    by code_simp
  have b: "g_raw_half_frame_counter example_acquisition_state = 7"
          "g_raw_half_frame_ready example_acquisition_state"
    by (simp_all add: example_acquisition_state_def)
  show ?thesis
    using trigger_race_guard [of example_fft_power 32 example_settings 4 "[]" 8
            example_acquisition_state example_trigger_state]
      trigger_race_guard [of example_fft_power 32 example_settings 4 "[]" 7
            example_acquisition_state example_trigger_state]
      a b
    by simp
qed

section \<open>The sample acquirer\<close>

lemma scale_sample_word:
  "scale_sample val offset leftshift correction =
     push_bit leftshift (val - offset) - word_of_int correction"
  by (simp add: scale_sample_def push_bit_eq_mult wi_hom_syms)

lemma fold_scale_step:
  assumes "buffer_offset + n \<le> length dest"
  shows "fold (scale_step dmabuffer buffer_offset offset leftshift corr) [0..<n] (dest, ov) =
     (take buffer_offset dest @
        map (\<lambda>i. scale_sample (dmabuffer ! (buffer_offset + i)) offset leftshift corr) [0..<n] @
        drop (buffer_offset + n) dest,
      ov \<or> (\<exists>i<n. is_overload (scale_sample (dmabuffer ! (buffer_offset + i)) offset leftshift corr)))"
  using assms
proof (induction n)
  case 0
  show ?case by simp
next
  case (Suc n)
  then have len: "buffer_offset + n < length dest" by simp
  have upd: "(take buffer_offset dest @ xs @ drop (buffer_offset + n) dest)[buffer_offset + n := v] =
         take buffer_offset dest @ (xs @ [v]) @ drop (buffer_offset + Suc n) dest"
    if "length xs = n" for xs v
  proof -
    have "drop (buffer_offset + n) dest = dest ! (buffer_offset + n) # drop (buffer_offset + Suc n) dest"
      using len by (simp add: Cons_nth_drop_Suc)
    then show ?thesis
      using that len by (simp add: list_update_append)
  qed
  show ?case
    using Suc.IH len
    by (auto simp add: scale_step_def Let_def upd is_overload_def SCALE_DOWN_THRESHOLD_UPPER_def
        SCALE_DOWN_THRESHOLD_LOWER_def less_Suc_eq)
qed

text \<open>
  Claim C8. For every half frame handled by \<open>process_half_frame\<close> (whose destination lies
  inside \<open>s_raw_buffer_q15\<close>), each published sample is
  \<open>((raw - offset) << leftshift) - s_signal_offset_correction\<close> in 16-bit arithmetic, and the
  overload indication is given (once) for the half frame exactly when at least one published
  sample lies strictly outside the range from \<open>-SCALE_DOWN_DELTA\<close> to \<open>SCALE_DOWN_DELTA\<close>.
  The published samples are given by the formula whether or not an overload is indicated.
\<close>

theorem process_half_frame_scaling:
  fixes p :: 'p
  assumes "buffer_offset = (if is_first_half then 0 else half_samples)"
    and "buffer_offset + half_samples \<le> length (s_raw_buffer_q15 st)"
    and st'_def: "st' = fst (process_half_frame half_samples proc is_first_half dmabuffer offset leftshift (st, p))"
  shows "(\<forall>i<half_samples. s_raw_buffer_q15 st' ! (buffer_offset + i) =
            push_bit leftshift (dmabuffer ! (buffer_offset + i) - offset) -
              word_of_int (s_signal_offset_correction st)) \<and>
         (leds_red_single_blinks st' =
            (if \<exists>i<half_samples. is_overload (s_raw_buffer_q15 st' ! (buffer_offset + i))
             then leds_red_single_blinks st + 1 else leds_red_single_blinks st)) \<and>
         g_raw_half_frame st' = Some buffer_offset \<and>
         g_raw_half_frame_counter st' = g_raw_half_frame_counter st + 1"
proof -
  let ?f = "\<lambda>i. scale_sample (dmabuffer ! (buffer_offset + i)) offset leftshift (s_signal_offset_correction st)"
  let ?ov = "\<exists>i<half_samples. is_overload (?f i)"
  have fold_eq: "fold (scale_step dmabuffer buffer_offset offset leftshift (s_signal_offset_correction st))
          [0..<half_samples] (s_raw_buffer_q15 st, False) =
        (take buffer_offset (s_raw_buffer_q15 st) @ map ?f [0..<half_samples] @
           drop (buffer_offset + half_samples) (s_raw_buffer_q15 st), ?ov)"
    using fold_scale_step [OF assms(2), of dmabuffer offset leftshift "s_signal_offset_correction st" False]
    by simp
  have buf: "s_raw_buffer_q15 st' = take buffer_offset (s_raw_buffer_q15 st) @ map ?f [0..<half_samples] @
           drop (buffer_offset + half_samples) (s_raw_buffer_q15 st)"
    unfolding st'_def process_half_frame_def Let_def
    using fold_eq assms(1) by simp
  have nth: "s_raw_buffer_q15 st' ! (buffer_offset + i) = ?f i" if "i < half_samples" for i
    using that assms(2) by (simp add: buf nth_append)
  have blink: "leds_red_single_blinks st' =
      (if ?ov then leds_red_single_blinks st + 1 else leds_red_single_blinks st)"
    unfolding st'_def process_half_frame_def Let_def
    using fold_eq assms(1) by simp
  have ov_eq: "?ov \<longleftrightarrow> (\<exists>i<half_samples. is_overload (s_raw_buffer_q15 st' ! (buffer_offset + i)))"
    using nth by auto
  have rest: "g_raw_half_frame st' = Some buffer_offset \<and>
         g_raw_half_frame_counter st' = g_raw_half_frame_counter st + 1"
    unfolding st'_def process_half_frame_def Let_def
    using assms(1) by simp
  show ?thesis
    using nth blink ov_eq rest by (simp add: scale_sample_word)
qed

theorem process_half_frame_scaling_witness:
  "s_raw_buffer_q15 (fst (process_half_frame 2 no_processor True example_dmabuffer 0x8000 0
      (example_acquisition_state, ()))) = [97, 32764, 0, 0] \<and>
   is_overload 32764 \<and>
   leds_red_single_blinks (fst (process_half_frame 2 no_processor True example_dmabuffer 0x8000 0
      (example_acquisition_state, ()))) = 1"
proof -
  have a: "(0::nat) = (if True then 0 else 2)" by simp
  have b: "0 + 2 \<le> length (s_raw_buffer_q15 example_acquisition_state)"
    by (simp add: example_acquisition_state_def)
  have c: "s_raw_buffer_q15 (fst (process_half_frame 2 no_processor True example_dmabuffer 0x8000 0
      (example_acquisition_state, ()))) = [97, 32764, 0, 0]"
    by code_simp
  have d: "is_overload (32764 :: 16 word)"
    by code_simp
  have e: "leds_red_single_blinks example_acquisition_state = 0"
    by (simp add: example_acquisition_state_def)
  have "\<exists>i<2. is_overload ([97, 32764, 0, 0 :: 16 word] ! (0 + i))"
    using d by (intro exI [of _ 1]) simp
  then show ?thesis
    using process_half_frame_scaling [OF a b refl, of no_processor example_dmabuffer "0x8000" 0 "()"]
      c d e
    by simp
qed

section \<open>Single-precision rounding\<close>

text \<open>
  \<open>float_exponent\<close> brackets a positive real between two powers of two; rounding to nearest
  is monotone and keeps the sign; integers up to \<open>2 ^ 24\<close> are \<open>float\<close>s.
\<close>

lemma pow2_powr: "pow2 e = 2 powr real_of_int e"
proof (cases "0 \<le> e")
  case True
  have a: "(2::real) powr real (nat e) = 2 ^ nat e" by (rule powr_realpow) simp
  have b: "real (nat e) = real_of_int e" using True by simp
  show ?thesis using True a [unfolded b] by (simp add: pow2_def)
next
  case False
  have a: "(2::real) powr real (nat (- e)) = 2 ^ nat (- e)" by (rule powr_realpow) simp
  have b: "real (nat (- e)) = - real_of_int e" using False by simp
  have "2 powr real_of_int e = 1 / 2 powr (- real_of_int e)"
    using powr_minus_divide [of 2 "- real_of_int e"] by simp
  then show ?thesis using False a [unfolded b] by (simp add: pow2_def)
qed

lemma pow2_pos [simp]: "0 < pow2 e"
  by (simp add: pow2_powr)

lemma pow2_nonneg [simp]: "0 \<le> pow2 e"
  by (simp add: pow2_powr)

lemma pow2_neq0 [simp]: "pow2 e \<noteq> 0"
  by (metis pow2_pos less_irrefl)

lemma pow2_add: "pow2 (a + b) = pow2 a * pow2 b"
  by (simp add: pow2_powr powr_add)

lemma pow2_mono: "a \<le> b \<Longrightarrow> pow2 a \<le> pow2 b"
  by (simp add: pow2_powr)

lemma pow2_nat: "pow2 (int n) = 2 ^ n"
  by (simp add: pow2_def)

lemma float_exponent_bounds:
  assumes "0 < a"
  shows "pow2 (float_exponent a) \<le> a" and "a < pow2 (float_exponent a + 1)"
proof -
  have "pow2 (float_exponent a) \<le> a \<and> a < pow2 (float_exponent a + 1)"
  proof (cases "1 \<le> a")
    case True
    let ?n = "\<lfloor>a\<rfloor>"
    have n: "0 < ?n" using True by simp
    have b: "0 < bitlen ?n"
      using n bitlen_eq_zero_iff [of ?n] bitlen_nonneg [of ?n] by linarith
    from bitlen_bounds [OF n]
    have lo: "2 ^ nat (bitlen ?n - 1) \<le> ?n" and hi: "?n < 2 ^ nat (bitlen ?n)" by simp_all
    have "real_of_int (2 ^ nat (bitlen ?n - 1)) \<le> real_of_int ?n"
      using lo by (simp only: of_int_le_iff)
    then have l: "(2::real) ^ nat (bitlen ?n - 1) \<le> a"
      by (simp add: le_floor_iff)
    have "?n + 1 \<le> 2 ^ nat (bitlen ?n)" using hi by simp
    then have "real_of_int (?n + 1) \<le> real_of_int (2 ^ nat (bitlen ?n))"
      by (simp only: of_int_le_iff)
    then have A: "real_of_int ?n + 1 \<le> 2 ^ nat (bitlen ?n)" by simp
    have B: "a < real_of_int ?n + 1" by linarith
    from A B have h: "a < (2::real) ^ nat (bitlen ?n)" by linarith
    have e: "float_exponent a = bitlen ?n - 1" using True by (simp add: float_exponent_def)
    show ?thesis
      unfolding e using l h b by (simp add: pow2_def)
  next
    case False
    let ?m = "\<lceil>1 / a\<rceil> - 1"
    have inv: "1 < 1 / a" using False assms by simp
    then have "1 < \<lceil>1 / a\<rceil>" by (simp add: less_ceiling_iff)
    then have m: "0 < ?m" by simp
    have b: "0 < bitlen ?m"
      using m bitlen_eq_zero_iff [of ?m] bitlen_nonneg [of ?m] by linarith
    from bitlen_bounds [OF m]
    have lo: "2 ^ nat (bitlen ?m - 1) \<le> ?m" and hi: "?m < 2 ^ nat (bitlen ?m)" by simp_all
    have m_lt: "real_of_int ?m < 1 / a" by (simp; linarith?)
    have m_ge: "1 / a \<le> real_of_int (?m + 1)" by simp
    have "real_of_int (2 ^ nat (bitlen ?m - 1)) \<le> real_of_int ?m"
      using lo by (simp only: of_int_le_iff)
    then have "(2::real) ^ nat (bitlen ?m - 1) < 1 / a" using m_lt by simp
    then have h: "a < 1 / 2 ^ nat (bitlen ?m - 1)"
      using assms by (simp add: field_simps)
    have "?m + 1 \<le> 2 ^ nat (bitlen ?m)" using hi by simp
    then have "real_of_int (?m + 1) \<le> real_of_int (2 ^ nat (bitlen ?m))"
      by (simp only: of_int_le_iff)
    then have C: "real_of_int \<lceil>1 / a\<rceil> \<le> 2 ^ nat (bitlen ?m)" by simp
    have "1 / a \<le> real_of_int \<lceil>1 / a\<rceil>" by (rule le_of_int_ceiling)
    with C have "1 / a \<le> (2::real) ^ nat (bitlen ?m)" by linarith
    then have l: "1 / 2 ^ nat (bitlen ?m) \<le> a"
      using assms by (simp add: field_simps)
    have e: "float_exponent a = - bitlen ?m" using False by (simp add: float_exponent_def)
    have s: "nat (bitlen ?m - 1) = nat (bitlen ?m) - 1" by simp
    show ?thesis
    proof (cases "bitlen ?m = 1")
      case True
      then show ?thesis unfolding e using l h by (simp add: pow2_def)
    next
      case False
      then have "1 < bitlen ?m" using b by simp
      then have "nat (- (- bitlen ?m + 1)) = nat (bitlen ?m - 1)" by simp
      then show ?thesis unfolding e using l h b \<open>1 < bitlen ?m\<close> by (simp add: pow2_def)
    qed
  qed
  then show "pow2 (float_exponent a) \<le> a" and "a < pow2 (float_exponent a + 1)" by simp_all
qed

lemma round_nearest_even_bounds:
  "real_of_int (round_nearest_even x) \<le> x + 1 / 2" "x - 1 / 2 \<le> real_of_int (round_nearest_even x)"
proof -
  define d where "d = x - real_of_int \<lfloor>x\<rfloor>"
  have d: "0 \<le> d" "d < 1" unfolding d_def by linarith+
  have r: "round_nearest_even x =
      (if d < 1 / 2 then \<lfloor>x\<rfloor> else if 1 / 2 < d then \<lfloor>x\<rfloor> + 1
       else if even \<lfloor>x\<rfloor> then \<lfloor>x\<rfloor> else \<lfloor>x\<rfloor> + 1)"
    by (simp add: round_nearest_even_def Let_def d_def)
  have x: "x = real_of_int \<lfloor>x\<rfloor> + d" by (simp add: d_def)
  show "real_of_int (round_nearest_even x) \<le> x + 1 / 2"
    unfolding r using d by (subst (2) x) (auto split: if_splits)
  show "x - 1 / 2 \<le> real_of_int (round_nearest_even x)"
    unfolding r using d by (subst (1) x) (auto split: if_splits)
qed

lemma round_nearest_even_int [simp]: "round_nearest_even (real_of_int n) = n"
  by (simp add: round_nearest_even_def)

lemma round_nearest_even_zero [simp]: "round_nearest_even 0 = 0"
  using round_nearest_even_int [of 0] by simp

lemma round_nearest_even_mono:
  assumes "x \<le> y"
  shows "round_nearest_even x \<le> round_nearest_even y"
proof (rule ccontr)
  assume "\<not> round_nearest_even x \<le> round_nearest_even y"
  then have "round_nearest_even y + 1 \<le> round_nearest_even x" by simp
  then have "real_of_int (round_nearest_even y + 1) \<le> real_of_int (round_nearest_even x)"
    by (simp only: of_int_le_iff)
  then have "real_of_int (round_nearest_even y) + 1 \<le> real_of_int (round_nearest_even x)" by simp
  with round_nearest_even_bounds(1) [of x] round_nearest_even_bounds(2) [of y]
  have "y \<le> x" by linarith
  with assms have "x = y" by simp
  with \<open>\<not> round_nearest_even x \<le> round_nearest_even y\<close> show False by simp
qed

lemma float_round_nonneg_eq:
  assumes "0 \<le> x"
  shows "float_round x =
     real_of_int (round_nearest_even (x / pow2 (max (float_exponent x) (- 126) - 23))) *
       pow2 (max (float_exponent x) (- 126) - 23)"
proof (cases "x = 0")
  case True
  then show ?thesis by (simp add: float_round_def)
next
  case False
  then have "0 < x" using assms by simp
  then show ?thesis by (simp add: float_round_def Let_def)
qed

lemma float_round_nonneg:
  assumes "0 \<le> x"
  shows "0 \<le> float_round x"
proof -
  let ?u = "pow2 (max (float_exponent x) (- 126) - 23)"
  have "real_of_int 0 \<le> x / ?u" using assms by simp
  from round_nearest_even_mono [OF this] have "0 \<le> round_nearest_even (x / ?u)"
    unfolding round_nearest_even_int .
  then show ?thesis
    unfolding float_round_nonneg_eq [OF assms] by simp
qed

lemma float_exponent_mono:
  assumes "0 < x" "x \<le> y"
  shows "float_exponent x \<le> float_exponent y"
proof (rule ccontr)
  assume "\<not> float_exponent x \<le> float_exponent y"
  then have "float_exponent y + 1 \<le> float_exponent x" by simp
  from pow2_mono [OF this] float_exponent_bounds(1) [OF assms(1)]
    float_exponent_bounds(2) [of y] assms
  show False by simp
qed

lemma float_round_mono:
  assumes "0 \<le> x" "x \<le> y"
  shows "float_round x \<le> float_round y"
proof (cases "x = 0")
  case True
  then show ?thesis using float_round_nonneg [of y] assms by (simp add: float_round_def)
next
  case False
  then have x: "0 < x" and y: "0 < y" "0 \<le> y" using assms by simp_all
  let ?ex = "max (float_exponent x) (- 126)"
  let ?ey = "max (float_exponent y) (- 126)"
  have le: "?ex \<le> ?ey" using float_exponent_mono [OF x assms(2)] by simp
  show ?thesis
  proof (cases "?ex = ?ey")
    case True
    have "x / pow2 (?ey - 23) \<le> y / pow2 (?ey - 23)"
      using assms(2) by (simp add: divide_right_mono)
    from round_nearest_even_mono [OF this] show ?thesis
      unfolding float_round_nonneg_eq [OF assms(1)] float_round_nonneg_eq [OF y(2)] True
      by (simp add: mult_right_mono)
  next
    case False
    then have lt: "?ex + 1 \<le> ?ey" using le by simp
    then have ey: "?ey = float_exponent y" by (simp add: max_def split: if_splits)
    have xlt: "x < pow2 (?ex + 1)"
    proof -
      have "float_exponent x + 1 \<le> ?ex + 1" by simp
      from pow2_mono [OF this] float_exponent_bounds(2) [OF x] show ?thesis by simp
    qed
    have ux: "pow2 (?ex + 1) = 2 ^ 24 * pow2 (?ex - 23)"
    proof -
      have "?ex + 1 = 24 + (?ex - 23)" by linarith
      then have "pow2 (?ex + 1) = pow2 (24 + (?ex - 23))" by (rule arg_cong)
      also have "\<dots> = pow2 24 * pow2 (?ex - 23)" by (rule pow2_add)
      finally show ?thesis by (simp add: pow2_def)
    qed
    have "x / pow2 (?ex - 23) \<le> real_of_int (2 ^ 24)"
      using xlt unfolding ux by (simp add: field_simps)
    from round_nearest_even_mono [OF this]
    have "round_nearest_even (x / pow2 (?ex - 23)) \<le> 2 ^ 24"
      unfolding round_nearest_even_int .
    then have "real_of_int (round_nearest_even (x / pow2 (?ex - 23))) \<le> real_of_int (2 ^ 24)"
      by (simp only: of_int_le_iff)
    then have "real_of_int (round_nearest_even (x / pow2 (?ex - 23))) * pow2 (?ex - 23) \<le>
        2 ^ 24 * pow2 (?ex - 23)"
      by (simp add: mult_right_mono)
    then have fx: "float_round x \<le> pow2 (?ex + 1)"
      unfolding float_round_nonneg_eq [OF assms(1)] ux .
    have uy: "pow2 ?ey = 2 ^ 23 * pow2 (?ey - 23)"
    proof -
      have "?ey = 23 + (?ey - 23)" by linarith
      then have "pow2 ?ey = pow2 (23 + (?ey - 23))" by (rule arg_cong)
      also have "\<dots> = pow2 23 * pow2 (?ey - 23)" by (rule pow2_add)
      finally show ?thesis by (simp add: pow2_def)
    qed
    have "pow2 ?ey \<le> y" using float_exponent_bounds(1) [OF y(1)] ey by simp
    then have "real_of_int (2 ^ 23) \<le> y / pow2 (?ey - 23)"
      unfolding uy by (simp add: field_simps)
    from round_nearest_even_mono [OF this]
    have "2 ^ 23 \<le> round_nearest_even (y / pow2 (?ey - 23))"
      unfolding round_nearest_even_int .
    then have "real_of_int (2 ^ 23) \<le> real_of_int (round_nearest_even (y / pow2 (?ey - 23)))"
      by (simp only: of_int_le_iff)
    then have "2 ^ 23 * pow2 (?ey - 23) \<le>
        real_of_int (round_nearest_even (y / pow2 (?ey - 23))) * pow2 (?ey - 23)"
      by (simp add: mult_right_mono)
    then have fy: "pow2 ?ey \<le> float_round y"
      unfolding float_round_nonneg_eq [OF y(2)] uy .
    from pow2_mono [OF lt] fx fy show ?thesis by linarith
  qed
qed

lemma pow2_neg_nat: "pow2 (- int n) = 1 / 2 ^ n"
proof (cases n)
  case 0
  then show ?thesis by (simp add: pow2_def)
next
  case (Suc k)
  have "nat (int n) = n" by simp
  then show ?thesis using Suc by (simp add: pow2_def del: of_nat_Suc)
qed

lemma float_round_small_int:
  assumes "0 \<le> i" "i \<le> 2 ^ 24"
  shows "float_round (real_of_int i) = real_of_int i"
proof (cases "i = 0 \<or> i = 2 ^ 24")
  case True
  have "float_round (real_of_int 0) = real_of_int 0" by (simp add: float_round_def)
  moreover have "float_round (real_of_int (2 ^ 24)) = real_of_int (2 ^ 24)" by code_simp
  ultimately show ?thesis using True by auto
next
  case False
  then have i: "0 < i" "i < 2 ^ 24" using assms by simp_all
  have one: "1 \<le> real_of_int i" using i by simp
  have e: "float_exponent (real_of_int i) = bitlen i - 1"
    using one by (simp add: float_exponent_def)
  have b0: "0 < bitlen i"
    using i bitlen_eq_zero_iff [of i] bitlen_nonneg [of i] by linarith
  have b24: "bitlen i \<le> 24"
    using i by (simp add: bitlen_le_iff_power)
  define n where "n = nat (24 - bitlen i)"
  have m: "max (float_exponent (real_of_int i)) (- 126) - 23 = - int n"
    using b0 b24 by (simp add: e n_def)
  have q: "real_of_int i / pow2 (- int n) = real_of_int (i * 2 ^ n)"
    by (simp add: pow2_neg_nat)
  have nn: "0 \<le> real_of_int i" using i by simp
  show ?thesis
    unfolding float_round_nonneg_eq [OF nn] m q round_nearest_even_int
    by (simp add: pow2_neg_nat)
qed

lemma float_of_int_small: "0 \<le> i \<Longrightarrow> i \<le> 2 ^ 24 \<Longrightarrow> float_of_int i = real_of_int i"
  by (simp add: float_of_int_def float_round_small_int)

lemma float_of_int_nonneg: "0 \<le> i \<Longrightarrow> 0 \<le> float_of_int i"
  by (simp add: float_of_int_def float_round_nonneg)

lemma float_of_int_mono: "0 \<le> i \<Longrightarrow> i \<le> j \<Longrightarrow> float_of_int i \<le> float_of_int j"
  by (simp add: float_of_int_def float_round_mono)

lemma float_mul_nonneg: "0 \<le> a \<Longrightarrow> 0 \<le> b \<Longrightarrow> 0 \<le> float_mul a b"
  by (simp add: float_mul_def float_round_nonneg)

lemma float_add_nonneg: "0 \<le> a \<Longrightarrow> 0 \<le> b \<Longrightarrow> 0 \<le> float_add a b"
  by (simp add: float_add_def float_round_nonneg)

lemma float_add_mono: "0 \<le> a \<Longrightarrow> 0 \<le> b \<Longrightarrow> a \<le> a' \<Longrightarrow> float_add a b \<le> float_add a' b"
  by (simp add: float_add_def float_round_mono)

lemma float_trunc_of_int [simp]: "float_trunc (real_of_int i) = i"
  by (simp add: float_trunc_def)

lemma float_trunc_ge0: "0 \<le> r \<Longrightarrow> 0 \<le> float_trunc r"
  by (simp add: float_trunc_def)

lemma float_trunc_mono: "a \<le> b \<Longrightarrow> float_trunc a \<le> float_trunc b"
proof -
  assume ab: "a \<le> b"
  have f: "\<lfloor>a\<rfloor> \<le> \<lfloor>b\<rfloor>" and c: "\<lceil>a\<rceil> \<le> \<lceil>b\<rceil>"
    using ab by (simp_all add: floor_mono ceiling_mono)
  show ?thesis
  proof (cases "0 \<le> a")
    case True
    then show ?thesis using ab f by (simp add: float_trunc_def)
  next
    case a: False
    show ?thesis
    proof (cases "0 \<le> b")
      case True
      have "\<lceil>a\<rceil> \<le> 0" using a by (simp add: ceiling_le_iff)
      moreover have "0 \<le> \<lfloor>b\<rfloor>" using True by simp
      ultimately have "\<lceil>a\<rceil> \<le> \<lfloor>b\<rfloor>" by (rule order_trans)
      then show ?thesis using a True by (simp add: float_trunc_def)
    next
      case False
      then show ?thesis using a c by (simp add: float_trunc_def)
    qed
  qed
qed

text \<open>A whole number of buffers added to a small fill counter is added exactly.\<close>

lemma float_sum_exact:
  assumes "0 \<le> k" "0 \<le> m" "k + m \<le> 2 ^ 24"
  shows "float_trunc (float_add (float_of_int k) (real_of_int m)) = k + m"
proof -
  have "float_of_int k = real_of_int k" using assms by (intro float_of_int_small) simp_all
  moreover have "float_round (real_of_int (k + m)) = real_of_int (k + m)"
    using assms by (intro float_round_small_int) simp_all
  ultimately have "float_add (float_of_int k) (real_of_int m) = real_of_int (k + m)"
    by (simp add: float_add_def)
  then show ?thesis by (simp only: float_trunc_of_int)
qed

text \<open>
  Two roundings: the product of 10 buffers per second with the \<open>float\<close> nearest to 0.7 is 7,
  where the exact product truncates to 6; and \<open>2 ^ 24 + 1\<close> converts to \<open>2 ^ 24\<close>.
\<close>

lemma single_precision_examples:
  "float_round (7 / 10) = 11744051 / 16777216"
  "float_mul (float_of_int 10) (float_round (7 / 10)) = 7"
  "\<lfloor>real_of_int 10 * float_round (7 / 10)\<rfloor> = 6"
  "float_of_int (2 ^ 24 + 1) = 2 ^ 24"
  "float_round (1 / 10) = 13421773 / 134217728"
  "float_round (2 - 1 / 2 ^ 25) = 2"
  "float_round (3 / 2 ^ 150) = 1 / 2 ^ 148"
  by code_simp+

text \<open>
  With 10 buffers per second and the \<open>float\<close> nearest to 0.7 seconds, a trigger at fill
  counter 52 computes the final index 59 and a backfill of 7 buffers.
\<close>

lemma single_precision_durations:
  "fresh_final (example_settings\<lparr>min_sampling_time_s := float_round (7 / 10)\<rparr>)
     (example_ring_state\<lparr>s_buffers_per_second := 10, s_unwrapped_filled_buffer_counter := 52\<rparr>) = 59"
  "backfill_count (example_settings\<lparr>pretrigger_time_s := float_round (7 / 10)\<rparr>)
     (example_ring_state\<lparr>s_buffers_per_second := 10\<rparr>) = 7"
  by code_simp+

section \<open>The buffer ring: conversions and the trigger event\<close>

lemma tokens_values: "START_TOKEN = - 2" "END_TOKEN = - 1"
  by (simp_all add: START_TOKEN_def END_TOKEN_def int32_of_def uint32_of_def
      BUFFERFIFO_START_SEQUENCE_def BUFFERFIFO_END_SEQUENCE_def)

lemma uint32_of_id: "0 \<le> x \<Longrightarrow> x < 2 ^ 32 \<Longrightarrow> uint32_of x = x"
  by (simp add: uint32_of_def)

lemma int32_of_id: "- (2 ^ 31) \<le> x \<Longrightarrow> x < 2 ^ 31 \<Longrightarrow> int32_of x = x"
  by (simp add: int32_of_def)

lemma float_trunc_nonneg: "0 \<le> r \<Longrightarrow> float_trunc r = \<lfloor>r\<rfloor>"
  by (simp add: float_trunc_def)

lemma on_trigger_ignored:
  "\<not> trigger_accepted tick st \<Longrightarrow> data_processor_buffers_on_trigger ps tick st = st"
  by (auto simp add: data_processor_buffers_on_trigger_def trigger_accepted_def)

lemma on_trigger_retrigger:
  "trigger_accepted tick st \<Longrightarrow> s_is_triggered st \<Longrightarrow>
   data_processor_buffers_on_trigger ps tick st =
     st\<lparr> s_trigger_count := s_trigger_count st + 1,
         s_final_unwrapped_buffer_for_trigger := fresh_final ps st \<rparr>"
  by (auto simp add: data_processor_buffers_on_trigger_def trigger_accepted_def Let_def
      fresh_final_def)

lemma fold_put_map:
  "fold (\<lambda>i. buffer_fifo_put (int32_of i)) xs f = fold buffer_fifo_put (map int32_of xs) f"
  by (simp add: fold_map comp_def)

lemma duration_nonneg:
  assumes "0 \<le> s_buffers_per_second st"
  shows "0 \<le> pretrigger_time_s ps \<Longrightarrow>
           0 \<le> float_mul (float_of_int (s_buffers_per_second st)) (pretrigger_time_s ps)"
    and "0 \<le> min_sampling_time_s ps \<Longrightarrow>
           0 \<le> float_mul (float_of_int (s_buffers_per_second st)) (min_sampling_time_s ps)"
  using assms by (simp_all add: float_mul_nonneg float_of_int_nonneg)

lemma buffers_nonneg:
  assumes "0 \<le> s_buffers_per_second st"
  shows "0 \<le> pretrigger_time_s ps \<Longrightarrow> 0 \<le> pretrigger_buffers ps st"
    and "0 \<le> min_sampling_time_s ps \<Longrightarrow> 0 \<le> minimum_buffers ps st"
  using duration_nonneg [OF assms, of ps]
  by (simp_all add: pretrigger_buffers_def minimum_buffers_def float_trunc_ge0)

lemma fresh_final_nonneg:
  assumes "0 \<le> s_unwrapped_filled_buffer_counter st" "0 \<le> s_buffers_per_second st"
    "0 \<le> min_sampling_time_s ps"
  shows "0 \<le> fresh_final ps st"
  unfolding fresh_final_def
  using assms duration_nonneg(2) [OF assms(2,3)]
  by (intro float_trunc_ge0 float_add_nonneg float_of_int_nonneg) simp_all

lemma fresh_final_trigger_fields [simp]:
  "fresh_final ps (st\<lparr>s_trigger_count := c\<rparr>) = fresh_final ps st"
  "fresh_final ps (st\<lparr>s_trigger_unwrapped_buffer_count := u\<rparr>) = fresh_final ps st"
  by (simp_all add: fresh_final_def)

lemma backfill_bounds:
  assumes "0 \<le> s_unwrapped_filled_buffer_counter st"
    and "0 \<le> s_buffers_per_second st" and "0 \<le> pretrigger_time_s ps"
  shows "0 \<le> backfill_count ps st" "backfill_count ps st \<le> 35"
    "backfill_count ps st \<le> s_unwrapped_filled_buffer_counter st"
  using assms(1) buffers_nonneg(1) [OF assms(2,3)]
  by (simp_all add: backfill_count_def NUM_BUFFERS_def BUFFER_DELTA_def)

lemma MIN_macro_min: "MIN_macro a b = min a b"
  by (auto simp add: MIN_macro_def min_def)

lemma pretrigger_count_eq:
  assumes k: "0 \<le> k"
    and pre: "0 \<le> x"
  shows "uint32_of (float_trunc (MIN_macro x (float_of_int (uint32_of (MIN_macro (NUM_BUFFERS - BUFFER_DELTA) k))))) =
         min (float_trunc x) (min (NUM_BUFFERS - BUFFER_DELTA) k)"
proof -
  let ?u = "min (NUM_BUFFERS - BUFFER_DELTA) k"
  have u: "0 \<le> ?u" "?u \<le> 35" using k by (simp_all add: NUM_BUFFERS_def BUFFER_DELTA_def)
  have a: "uint32_of (MIN_macro (NUM_BUFFERS - BUFFER_DELTA) k) = ?u"
    unfolding MIN_macro_min using u by (intro uint32_of_id) simp_all
  have fu: "float_of_int ?u = real_of_int ?u"
    using u by (intro float_of_int_small) simp_all
  have b: "MIN_macro x (real_of_int ?u) = min x (real_of_int ?u)"
    by (rule MIN_macro_min)
  have c: "float_trunc (min x (real_of_int ?u)) = min \<lfloor>x\<rfloor> ?u"
    using pre u by (simp add: float_trunc_nonneg min_def floor_le_iff le_floor_iff) linarith
  have d: "0 \<le> min \<lfloor>x\<rfloor> ?u" "min \<lfloor>x\<rfloor> ?u \<le> 35" using pre u by simp_all
  have e: "float_trunc x = \<lfloor>x\<rfloor>" using pre by (rule float_trunc_nonneg)
  show ?thesis
    unfolding a fu b c e using d by (intro uint32_of_id) simp_all
qed

lemma map_int32_of_upto:
  assumes "- (2 ^ 31) \<le> a" "b < 2 ^ 31"
  shows "map int32_of [a..b] = [a..b]"
  using assms by (intro map_idI) (simp add: int32_of_id)

lemma on_trigger_new:
  assumes acc: "trigger_accepted tick st"
    and nt: "\<not> s_is_triggered st"
    and k: "0 \<le> s_unwrapped_filled_buffer_counter st"
    and k31: "s_unwrapped_filled_buffer_counter st < 2 ^ 31"
    and bps: "0 \<le> s_buffers_per_second st"
    and pre: "0 \<le> pretrigger_time_s ps"
    and mn: "0 \<le> min_sampling_time_s ps"
    and fin: "fresh_final ps st < 2 ^ 31"
  shows "data_processor_buffers_on_trigger ps tick st =
     st\<lparr> s_trigger_count := s_trigger_count st + 1,
         s_trigger_unwrapped_buffer_count := s_unwrapped_filled_buffer_counter st,
         fifo := fold buffer_fifo_put
                   (START_TOKEN # [s_unwrapped_filled_buffer_counter st - backfill_count ps st ..
                                   s_unwrapped_filled_buffer_counter st - 1])
                   (fifo st),
         s_final_unwrapped_buffer_for_trigger := fresh_final ps st,
         s_is_triggered := True \<rparr>"
proof -
  let ?k = "s_unwrapped_filled_buffer_counter st"
  let ?x = "float_mul (float_of_int (s_buffers_per_second st)) (pretrigger_time_s ps)"
  let ?p = "backfill_count ps st"
  have x: "0 \<le> ?x" by (rule duration_nonneg(1) [OF bps pre])
  have uk: "uint32_of ?k = ?k" using k k31 by (intro uint32_of_id) simp_all
  have p: "uint32_of (float_trunc (MIN_macro ?x
              (float_of_int (uint32_of (MIN_macro (NUM_BUFFERS - BUFFER_DELTA) ?k))))) = ?p"
    using pretrigger_count_eq [OF k x]
    by (simp add: backfill_count_def pretrigger_buffers_def)
  have pb: "0 \<le> ?p" "?p \<le> ?k" using backfill_bounds [OF k bps pre] by simp_all
  have init: "uint32_of (?k - ?p) = ?k - ?p"
    using pb k31 by (intro uint32_of_id) simp_all
  have f0: "0 \<le> fresh_final ps st" by (rule fresh_final_nonneg [OF k bps mn])
  have ufin: "uint32_of (fresh_final ps st) = fresh_final ps st"
    using f0 fin by (intro uint32_of_id) simp_all
  have ifin: "int32_of (fresh_final ps st) = fresh_final ps st"
    using f0 fin by (intro int32_of_id) simp_all
  have lst: "map int32_of [?k - ?p .. ?k - 1] = [?k - ?p .. ?k - 1]"
    using pb k k31 by (intro map_int32_of_upto) simp_all
  have guard: "\<not> (s_is_gated st \<or> tick < s_gate_released_ticks st + 10)"
    using acc by (auto simp add: trigger_accepted_def)
  have st: "int32_of BUFFERFIFO_START_SEQUENCE = START_TOKEN"
    by (simp add: START_TOKEN_def)
  show ?thesis
    unfolding data_processor_buffers_on_trigger_def Let_def fresh_final_def [symmetric]
    using guard nt
    by (simp add: p uk init ufin ifin fold_put_map lst st)
qed

subsection \<open>The FIFO\<close>

lemma BUFFER_FIFO_LENGTH_val: "BUFFER_FIFO_LENGTH = 185"
  by (simp add: BUFFER_FIFO_LENGTH_def NUM_BUFFERS_def)

lemma add_and_wrap_mod:
  assumes "i < BUFFER_FIFO_LENGTH"
  shows "nat (add_and_wrap (int i) 1 (int BUFFER_FIFO_LENGTH)) = (i + 1) mod BUFFER_FIFO_LENGTH"
proof (cases "i + 1 = BUFFER_FIFO_LENGTH")
  case True
  then show ?thesis by (simp add: add_and_wrap_def Let_def)
next
  case False
  with assms have "i + 1 < BUFFER_FIFO_LENGTH" by simp
  then show ?thesis by (simp add: add_and_wrap_def Let_def)
qed

lemma put_count [simp]: "s_buffer_fifo_count (buffer_fifo_put v f) = s_buffer_fifo_count f + 1"
  by (simp add: buffer_fifo_put_def)

lemma fold_put_count [simp]:
  "s_buffer_fifo_count (fold buffer_fifo_put ts f) = s_buffer_fifo_count f + length ts"
  by (induction ts arbitrary: f) simp_all

lemma put_wf:
  assumes "fifo_wf f" and "s_buffer_fifo_count f < BUFFER_FIFO_LENGTH"
  shows "fifo_wf (buffer_fifo_put v f)"
proof -
  have nw: "s_buffer_fifo_next_write f < BUFFER_FIFO_LENGTH"
    using assms(1) by (simp add: fifo_wf_def BUFFER_FIFO_LENGTH_val)
  have nwv: "s_buffer_fifo_next_write f =
      (s_buffer_fifo_next_read f + s_buffer_fifo_count f) mod BUFFER_FIFO_LENGTH"
    using assms(1) by (simp add: fifo_wf_def)
  have "nat (add_and_wrap (int (s_buffer_fifo_next_write f)) 1 (int BUFFER_FIFO_LENGTH)) =
        (s_buffer_fifo_next_write f + 1) mod BUFFER_FIFO_LENGTH"
    by (rule add_and_wrap_mod [OF nw])
  also have "\<dots> = (s_buffer_fifo_next_read f + (s_buffer_fifo_count f + 1)) mod BUFFER_FIFO_LENGTH"
    by (simp add: nwv mod_Suc_eq)
  finally show ?thesis
    using assms
    by (simp add: fifo_wf_def buffer_fifo_put_def)
qed

lemma mod_neq_between:
  fixes L :: nat
  assumes "k < c" "c < L"
  shows "(r + k) mod L \<noteq> (r + c) mod L"
proof
  assume "(r + k) mod L = (r + c) mod L"
  then have "(r + c) mod L = (r + k) mod L" by simp
  then have "L dvd (r + c) - (r + k)"
    using assms mod_eq_dvd_iff_nat [of "r + k" "r + c" L] by simp
  then have "L dvd c - k" by simp
  moreover have "0 < c - k" "c - k < L" using assms by simp_all
  ultimately show False by (simp add: nat_dvd_not_less)
qed

lemma put_tokens:
  assumes wf: "fifo_wf f" and room: "s_buffer_fifo_count f < BUFFER_FIFO_LENGTH"
  shows "fifo_tokens (buffer_fifo_put v f) = fifo_tokens f @ [v]"
proof -
  let ?L = BUFFER_FIFO_LENGTH
  let ?r = "s_buffer_fifo_next_read f"
  let ?c = "s_buffer_fifo_count f"
  let ?a = "s_buffer_fifo f"
  have Lpos: "0 < ?L" by (simp add: BUFFER_FIFO_LENGTH_val)
  have nw: "s_buffer_fifo_next_write f = (?r + ?c) mod ?L" and len: "length ?a = ?L"
    using wf by (simp_all add: fifo_wf_def)
  have old: "(?a[(?r + ?c) mod ?L := v]) ! ((?r + k) mod ?L) = ?a ! ((?r + k) mod ?L)" if "k < ?c" for k
    using mod_neq_between [OF that room, of ?r] by simp
  have new: "(?a[(?r + ?c) mod ?L := v]) ! ((?r + ?c) mod ?L) = v"
    using len Lpos by simp
  have "fifo_tokens (buffer_fifo_put v f) =
        map (\<lambda>k. (?a[(?r + ?c) mod ?L := v]) ! ((?r + k) mod ?L)) [0..<?c] @
          [(?a[(?r + ?c) mod ?L := v]) ! ((?r + ?c) mod ?L)]"
    by (simp add: fifo_tokens_def buffer_fifo_put_def nw)
  also have "map (\<lambda>k. (?a[(?r + ?c) mod ?L := v]) ! ((?r + k) mod ?L)) [0..<?c] = fifo_tokens f"
    unfolding fifo_tokens_def by (intro map_cong refl) (simp add: old)
  finally show ?thesis by (simp add: new)
qed

lemma fold_put_tokens:
  assumes "fifo_wf f" and "s_buffer_fifo_count f + length ts \<le> BUFFER_FIFO_LENGTH"
  shows "fifo_wf (fold buffer_fifo_put ts f) \<and>
         fifo_tokens (fold buffer_fifo_put ts f) = fifo_tokens f @ ts"
  using assms
proof (induction ts arbitrary: f)
  case Nil
  then show ?case by simp
next
  case (Cons t ts)
  have room: "s_buffer_fifo_count f < BUFFER_FIFO_LENGTH" using Cons.prems by simp
  have wf1: "fifo_wf (buffer_fifo_put t f)" using put_wf [OF Cons.prems(1) room] .
  have "s_buffer_fifo_count (buffer_fifo_put t f) + length ts \<le> BUFFER_FIFO_LENGTH"
    using Cons.prems by simp
  from Cons.IH [OF wf1 this] show ?case
    by (simp add: put_tokens [OF Cons.prems(1) room])
qed

subsection \<open>Slot completion\<close>

lemma switch_fields [simp]:
  "s_mode (switch_to_next_buffer g st) = s_mode st"
  "s_final_unwrapped_buffer_for_trigger (switch_to_next_buffer g st) = s_final_unwrapped_buffer_for_trigger st"
  "s_unwrapped_filled_buffer_counter (switch_to_next_buffer g st) = s_unwrapped_filled_buffer_counter st + 1"
  "s_buffers_per_second (switch_to_next_buffer g st) = s_buffers_per_second st"
  "s_gate_released_ticks (switch_to_next_buffer g st) = s_gate_released_ticks st"
  "s_active_buffer_entry_count (switch_to_next_buffer g st) = 0"
  "s_buffers (switch_to_next_buffer g st) = s_buffers st"
  "s_is_new_sequence (switch_to_next_buffer g st) = s_is_new_sequence st"
  by (simp_all add: switch_to_next_buffer_def Let_def)

lemma upto_snoc: "[k .. k + int n] = [k .. k + int n - 1] @ [k + int n]"
  using upto_rec2 [of k "k + int n"] by simp

lemma switch_triggered_step:
  assumes "s_mode st = DATA_PROCESSOR_TRIGGERED" and "s_is_triggered st"
  shows "fifo (switch_to_next_buffer g st) =
           (if s_unwrapped_filled_buffer_counter st > s_final_unwrapped_buffer_for_trigger st \<or>
               g \<and> NUM_BUFFERS + 1 \<le> int (s_buffer_fifo_count (fifo st))
            then buffer_fifo_put END_TOKEN (fifo st)
            else buffer_fifo_put (s_unwrapped_filled_buffer_counter st) (fifo st))"
    and "s_is_triggered (switch_to_next_buffer g st) \<longleftrightarrow>
           \<not> s_unwrapped_filled_buffer_counter st > s_final_unwrapped_buffer_for_trigger st"
    and "s_is_gated (switch_to_next_buffer g st) \<longleftrightarrow>
           s_is_gated st \<or>
           g \<and> (s_unwrapped_filled_buffer_counter st > s_final_unwrapped_buffer_for_trigger st \<or>
                NUM_BUFFERS + 1 \<le> int (s_buffer_fifo_count (fifo st)))"
  by (cases g; simp add: assms switch_to_next_buffer_def Let_def END_TOKEN_def)+

lemma switch_iterate_triggered_any:
  assumes "s_mode st = DATA_PROCESSOR_TRIGGERED" and "s_is_triggered st"
    and "int n \<le> s_final_unwrapped_buffer_for_trigger st - s_unwrapped_filled_buffer_counter st + 1"
    and "g \<longrightarrow> int (s_buffer_fifo_count (fifo st)) + int n \<le> NUM_BUFFERS + 1"
  shows "fifo ((switch_to_next_buffer g ^^ n) st) =
           fold buffer_fifo_put
             [s_unwrapped_filled_buffer_counter st .. s_unwrapped_filled_buffer_counter st + int n - 1]
             (fifo st) \<and>
         s_is_triggered ((switch_to_next_buffer g ^^ n) st) \<and>
         s_is_gated ((switch_to_next_buffer g ^^ n) st) = s_is_gated st \<and>
         s_unwrapped_filled_buffer_counter ((switch_to_next_buffer g ^^ n) st) =
           s_unwrapped_filled_buffer_counter st + int n \<and>
         s_mode ((switch_to_next_buffer g ^^ n) st) = DATA_PROCESSOR_TRIGGERED \<and>
         s_final_unwrapped_buffer_for_trigger ((switch_to_next_buffer g ^^ n) st) =
           s_final_unwrapped_buffer_for_trigger st"
  using assms(3,4)
proof (induction n)
  case 0
  then show ?case using assms(1,2) by simp
next
  case (Suc n)
  let ?s = "(switch_to_next_buffer g ^^ n) st"
  have p1: "int n \<le> s_final_unwrapped_buffer_for_trigger st - s_unwrapped_filled_buffer_counter st + 1"
    using Suc.prems(1) by simp
  have p2: "g \<longrightarrow> int (s_buffer_fifo_count (fifo st)) + int n \<le> NUM_BUFFERS + 1"
    using Suc.prems(2) by auto
  from Suc.IH [OF p1 p2]
  have ih: "fifo ?s = fold buffer_fifo_put
             [s_unwrapped_filled_buffer_counter st .. s_unwrapped_filled_buffer_counter st + int n - 1]
             (fifo st)"
    "s_is_triggered ?s"
    "s_is_gated ?s = s_is_gated st"
    "s_unwrapped_filled_buffer_counter ?s = s_unwrapped_filled_buffer_counter st + int n"
    "s_mode ?s = DATA_PROCESSOR_TRIGGERED"
    "s_final_unwrapped_buffer_for_trigger ?s = s_final_unwrapped_buffer_for_trigger st"
    by simp_all
  have le: "(s_unwrapped_filled_buffer_counter ?s > s_final_unwrapped_buffer_for_trigger ?s) = False"
    using Suc.prems ih(4,6) by simp
  have room: "(g \<and> NUM_BUFFERS + 1 \<le> int (s_buffer_fifo_count (fifo ?s))) = False"
    using Suc.prems(2) by (auto simp add: ih(1))
  have room2: "(g \<and> (False \<or> NUM_BUFFERS + 1 \<le> int (s_buffer_fifo_count (fifo ?s)))) = False"
    using room by simp
  note step = switch_triggered_step [OF ih(5) ih(2), of g, unfolded le room room2 simp_thms if_False]
  have sw: "(switch_to_next_buffer g ^^ Suc n) st = switch_to_next_buffer g ?s" by simp
  show ?case
    unfolding sw using step ih by (simp add: upto_snoc)
qed

text \<open>The sequence that follows an accepted trigger, up to END.\<close>

lemma triggered_run:
  assumes m: "s_mode st1 = DATA_PROCESSOR_TRIGGERED" and t: "s_is_triggered st1"
    and k: "s_unwrapped_filled_buffer_counter st1 = k"
    and F: "s_final_unwrapped_buffer_for_trigger st1 = F"
    and ng: "\<not> s_is_gated st1"
    and c: "s_buffer_fifo_count (fifo st1) = c"
  shows "int n \<le> F - k + 1 \<Longrightarrow> (g \<longrightarrow> int c + int n \<le> NUM_BUFFERS + 1) \<Longrightarrow>
           fifo ((switch_to_next_buffer g ^^ n) st1) =
             fold buffer_fifo_put [k .. k + int n - 1] (fifo st1) \<and>
           s_is_triggered ((switch_to_next_buffer g ^^ n) st1) \<and>
           \<not> s_is_gated ((switch_to_next_buffer g ^^ n) st1)"
    and "(g \<longrightarrow> int c + int (nat (F - k + 1)) \<le> NUM_BUFFERS + 1) \<Longrightarrow>
           fifo ((switch_to_next_buffer g ^^ Suc (nat (F - k + 1))) st1) =
             fold buffer_fifo_put ([k .. F] @ [END_TOKEN]) (fifo st1) \<and>
           \<not> s_is_triggered ((switch_to_next_buffer g ^^ Suc (nat (F - k + 1))) st1) \<and>
           (s_is_gated ((switch_to_next_buffer g ^^ Suc (nat (F - k + 1))) st1) \<longleftrightarrow> g)"
    and "g \<Longrightarrow> j = nat (NUM_BUFFERS + 1 - int c) \<Longrightarrow> int j < F - k + 1 \<Longrightarrow>
           fifo ((switch_to_next_buffer g ^^ Suc j) st1) =
             fold buffer_fifo_put ([k .. k + int j - 1] @ [END_TOKEN]) (fifo st1) \<and>
           s_is_triggered ((switch_to_next_buffer g ^^ Suc j) st1) \<and>
           s_is_gated ((switch_to_next_buffer g ^^ Suc j) st1)"
proof -
  note it = switch_iterate_triggered_any [OF m t, of _ g, unfolded k F c]
  show "fifo ((switch_to_next_buffer g ^^ n) st1) =
             fold buffer_fifo_put [k .. k + int n - 1] (fifo st1) \<and>
           s_is_triggered ((switch_to_next_buffer g ^^ n) st1) \<and>
           \<not> s_is_gated ((switch_to_next_buffer g ^^ n) st1)"
    if "int n \<le> F - k + 1" "g \<longrightarrow> int c + int n \<le> NUM_BUFFERS + 1"
    using it [OF that] ng by simp
  show "fifo ((switch_to_next_buffer g ^^ Suc (nat (F - k + 1))) st1) =
             fold buffer_fifo_put ([k .. F] @ [END_TOKEN]) (fifo st1) \<and>
           \<not> s_is_triggered ((switch_to_next_buffer g ^^ Suc (nat (F - k + 1))) st1) \<and>
           (s_is_gated ((switch_to_next_buffer g ^^ Suc (nat (F - k + 1))) st1) \<longleftrightarrow> g)"
    if room: "g \<longrightarrow> int c + int (nat (F - k + 1)) \<le> NUM_BUFFERS + 1"
  proof -
    let ?m = "nat (F - k + 1)"
    let ?s = "(switch_to_next_buffer g ^^ ?m) st1"
    have le: "int ?m \<le> F - k + 1 \<or> (?m = 0 \<and> F - k + 1 < 0)" by simp
    have base: "fifo ?s = fold buffer_fifo_put [k .. F] (fifo st1) \<and> s_is_triggered ?s \<and>
        s_is_gated ?s = s_is_gated st1 \<and> s_unwrapped_filled_buffer_counter ?s > F \<and>
        s_mode ?s = DATA_PROCESSOR_TRIGGERED \<and> s_final_unwrapped_buffer_for_trigger ?s = F"
    proof (cases "0 \<le> F - k + 1")
      case True
      then have a: "int ?m \<le> F - k + 1" and b: "k + int ?m - 1 = F" by simp_all
      from it [OF a room] show ?thesis by (simp add: b)
    next
      case False
      then have z: "?m = 0" and e: "[k .. F] = []" by simp_all
      show ?thesis using False m t k F by (simp add: z e)
    qed
    then have s: "fifo ?s = fold buffer_fifo_put [k .. F] (fifo st1)" "s_is_triggered ?s"
      "s_is_gated ?s = s_is_gated st1"
      "s_unwrapped_filled_buffer_counter ?s > s_final_unwrapped_buffer_for_trigger ?s"
      "s_mode ?s = DATA_PROCESSOR_TRIGGERED"
      by simp_all
    show ?thesis
      using switch_triggered_step [OF s(5) s(2), of g] s(1,3,4) ng by simp
  qed
  show "fifo ((switch_to_next_buffer g ^^ Suc j) st1) =
             fold buffer_fifo_put ([k .. k + int j - 1] @ [END_TOKEN]) (fifo st1) \<and>
           s_is_triggered ((switch_to_next_buffer g ^^ Suc j) st1) \<and>
           s_is_gated ((switch_to_next_buffer g ^^ Suc j) st1)"
    if g: g and j: "j = nat (NUM_BUFFERS + 1 - int c)" and lt: "int j < F - k + 1"
  proof -
    let ?s = "(switch_to_next_buffer g ^^ j) st1"
    have a: "int j \<le> F - k + 1" using lt by simp
    have full: "NUM_BUFFERS + 1 \<le> int c + int j" using j by simp
    have sc: "fifo ?s = fold buffer_fifo_put [k .. k + int j - 1] (fifo st1) \<and> s_is_triggered ?s \<and>
      s_unwrapped_filled_buffer_counter ?s = k + int j \<and>
      s_mode ?s = DATA_PROCESSOR_TRIGGERED \<and> s_final_unwrapped_buffer_for_trigger ?s = F"
    proof (cases "j = 0")
      case True
      then show ?thesis using m t k F by simp
    next
      case False
      then have "int c + int j \<le> NUM_BUFFERS + 1" using j by simp
      then have r: "g \<longrightarrow> int c + int j \<le> NUM_BUFFERS + 1" by simp
      from it [OF a r] show ?thesis by simp
    qed
    then have s: "fifo ?s = fold buffer_fifo_put [k .. k + int j - 1] (fifo st1)" "s_is_triggered ?s"
      "s_unwrapped_filled_buffer_counter ?s = k + int j"
      "s_mode ?s = DATA_PROCESSOR_TRIGGERED" "s_final_unwrapped_buffer_for_trigger ?s = F"
      by simp_all
    have cnt: "NUM_BUFFERS + 1 \<le> int (s_buffer_fifo_count (fifo ?s))"
      using full by (simp add: s(1) c)
    have le: "\<not> s_unwrapped_filled_buffer_counter ?s > s_final_unwrapped_buffer_for_trigger ?s"
      using lt by (simp add: s(3,5))
    show ?thesis
      using switch_triggered_step [OF s(4) s(2), of g] g cnt le s(1) by simp
  qed
qed

section \<open>Appending samples\<close>

lemma copy_samples_closed:
  "copy_samples n d src p m =
     (if n = 0 \<or> (0 \<le> d \<and> d + int n \<le> NUM_BUFFERS * DATA_BUFFER_ENTRIES)
      then Some (\<lambda>a. if d \<le> a \<and> a < d + int n then src (p + (a - d)) else m a)
      else None)"
proof (induction n arbitrary: d p m)
  case 0
  show ?case by (auto simp add: fun_eq_iff)
next
  case (Suc n)
  have eq: "(\<lambda>a. if d + 1 \<le> a \<and> a < d + 1 + int n then src (p + 1 + (a - (d + 1)))
                  else (m(d := src p)) a) =
            (\<lambda>a. if d \<le> a \<and> a < d + int (Suc n) then src (p + (a - d)) else m a)"
    by (rule ext) auto
  show ?case
  proof (cases "0 \<le> d \<and> d < NUM_BUFFERS * DATA_BUFFER_ENTRIES")
    case True
    then show ?thesis
      using eq by (auto simp add: Suc.IH)
  next
    case False
    then show ?thesis by auto
  qed
qed

lemma switch_wf:
  assumes "0 \<le> s_active_buffer_index st" "s_active_buffer_index st < NUM_BUFFERS"
  shows "buffers_wf (switch_to_next_buffer g st)"
  using assms
  by (simp add: buffers_wf_def switch_to_next_buffer_def Let_def NUM_BUFFERS_def DATA_BUFFER_ENTRIES_def)

lemma switch_ignores_samples:
  "switch_to_next_buffer g (st\<lparr>s_buffers := m, s_active_buffer_entry_count := e\<rparr>) =
   (switch_to_next_buffer g st)\<lparr>s_buffers := m\<rparr>"
  by (simp add: switch_to_next_buffer_def Let_def)

lemma switch_restore:
  "(switch_to_next_buffer g st)\<lparr>s_buffers := s_buffers st, s_active_buffer_entry_count := 0\<rparr> =
   switch_to_next_buffer g st"
  by (simp add: switch_to_next_buffer_def Let_def)

text \<open>What a call does to everything but the samples and the entry count.\<close>

lemma data_processor_buffers_cases:
  assumes "data_processor_buffers ps src off count st = Some st'"
  shows "st'\<lparr>s_buffers := s_buffers st,
             s_active_buffer_entry_count := s_active_buffer_entry_count st\<rparr> = st \<or>
         (\<not> (gated_recording ps \<and> s_is_gated st) \<and>
          st'\<lparr>s_buffers := s_buffers st, s_active_buffer_entry_count := 0\<rparr> =
            switch_to_next_buffer (gated_recording ps) st)"
proof (cases "gated_recording ps \<and> s_is_gated st")
  case True
  then have "st' = st" using assms by (simp add: data_processor_buffers_def)
  then show ?thesis by simp
next
  case False
  show ?thesis
    using assms False
    unfolding data_processor_buffers_def Let_def
    by (auto simp add: switch_ignores_samples switch_restore split: option.splits if_splits)
qed

lemma copy_samples_Some:
  assumes "n = 0 \<or> (0 \<le> d \<and> d + int n \<le> NUM_BUFFERS * DATA_BUFFER_ENTRIES)"
  shows "copy_samples n d src p m =
           Some (\<lambda>a. if d \<le> a \<and> a < d + int n then src (p + (a - d)) else m a)"
  using assms by (simp add: copy_samples_closed)

lemma copy_samples_None:
  assumes "0 < n" and "\<not> (0 \<le> d \<and> d + int n \<le> NUM_BUFFERS * DATA_BUFFER_ENTRIES)"
  shows "copy_samples n d src p m = None"
  using assms by (simp add: copy_samples_closed)

lemma switch_active_index:
  assumes "0 \<le> s_active_buffer_index st" "s_active_buffer_index st < NUM_BUFFERS"
  shows "0 \<le> s_active_buffer_index (switch_to_next_buffer g st)"
    "s_active_buffer_index (switch_to_next_buffer g st) < NUM_BUFFERS"
    "s_active_buffer_ptr (switch_to_next_buffer g st) =
       s_active_buffer_index (switch_to_next_buffer g st) * DATA_BUFFER_ENTRIES"
  using assms
  by (simp_all add: switch_to_next_buffer_def Let_def NUM_BUFFERS_def)

lemma buffers_wf_samples [simp]: "buffers_wf (st\<lparr>s_buffers := m\<rparr>) = buffers_wf st"
  by (simp add: buffers_wf_def)

text \<open>The call, step by step, once the first copy is known to stay inside the array.\<close>

lemma data_processor_buffers_unfold:
  assumes "\<not> (gated_recording ps \<and> s_is_gated st)"
    and "free_entries = int32_of (uint32_of (DATA_BUFFER_ENTRIES - s_active_buffer_entry_count st))"
    and "n1 = (if free_entries < count then free_entries else count)"
    and "copy_samples (nat n1) (s_active_buffer_ptr st + s_active_buffer_entry_count st) src off
           (s_buffers st) = Some m1"
    and "st1 = st\<lparr>s_buffers := m1, s_active_buffer_entry_count := s_active_buffer_entry_count st + n1\<rparr>"
    and "st2 = (if uint32_of (s_active_buffer_entry_count st1) \<ge> DATA_BUFFER_ENTRIES
                then switch_to_next_buffer (gated_recording ps) st1 else st1)"
  shows "data_processor_buffers ps src off count st =
     (if count - n1 > 0 then
        (case copy_samples (nat (count - n1)) (s_active_buffer_ptr st2 + s_active_buffer_entry_count st2)
                src (off + int (nat n1)) (s_buffers st2) of
           None \<Rightarrow> None
         | Some m2 \<Rightarrow> Some (st2\<lparr>s_buffers := m2,
                                 s_active_buffer_entry_count := s_active_buffer_entry_count st2 + (count - n1)\<rparr>))
      else Some st2)"
proof -
  have ng: "(gated_recording ps \<and> s_is_gated st) = False" using assms(1) by simp
  show ?thesis
    unfolding data_processor_buffers_def Let_def ng if_False
      assms(2) [symmetric] assms(3) [symmetric] assms(4) option.case
      assms(5) [symmetric] assms(6) [symmetric]
    by (rule refl)
qed

lemma data_processor_buffers_total:
  assumes wf: "buffers_wf st" and cnt: "count \<le> DATA_BUFFER_ENTRIES"
  shows "\<exists>st'. data_processor_buffers ps src off count st = Some st' \<and>
           (s_unwrapped_filled_buffer_counter st' = s_unwrapped_filled_buffer_counter st \<or>
            s_unwrapped_filled_buffer_counter st' = s_unwrapped_filled_buffer_counter st + 1) \<and>
           (0 \<le> count \<longrightarrow> buffers_wf st' \<and>
              (\<not> (gated_recording ps \<and> s_is_gated st) \<longrightarrow>
                 s_unwrapped_filled_buffer_counter st' * DATA_BUFFER_ENTRIES + s_active_buffer_entry_count st' =
                 s_unwrapped_filled_buffer_counter st * DATA_BUFFER_ENTRIES + s_active_buffer_entry_count st + count))"
proof (cases "gated_recording ps \<and> s_is_gated st")
  case True
  then show ?thesis using wf by (simp add: data_processor_buffers_def)
next
  case ng: False
  let ?c = "s_active_buffer_entry_count st"
  let ?i = "s_active_buffer_index st"
  let ?g = "gated_recording ps"
  have i: "0 \<le> ?i" "?i < NUM_BUFFERS" and ptr: "s_active_buffer_ptr st = ?i * DATA_BUFFER_ENTRIES"
    and c: "0 \<le> ?c" "?c < DATA_BUFFER_ENTRIES"
    using wf by (simp_all add: buffers_wf_def)
  have free: "DATA_BUFFER_ENTRIES - ?c = int32_of (uint32_of (DATA_BUFFER_ENTRIES - ?c))"
    using c by (simp add: int32_of_def uint32_of_def DATA_BUFFER_ENTRIES_def)
  have slot: "?i * DATA_BUFFER_ENTRIES + DATA_BUFFER_ENTRIES \<le> NUM_BUFFERS * DATA_BUFFER_ENTRIES"
    using i by (simp add: NUM_BUFFERS_def DATA_BUFFER_ENTRIES_def)
  have base: "0 \<le> ?i * DATA_BUFFER_ENTRIES"
    using i by (simp add: DATA_BUFFER_ENTRIES_def)
  define n1 where "n1 = (if DATA_BUFFER_ENTRIES - ?c < count then DATA_BUFFER_ENTRIES - ?c else count)"
  have n1: "n1 \<le> DATA_BUFFER_ENTRIES - ?c" "n1 \<le> count" "0 \<le> count \<Longrightarrow> 0 \<le> n1"
    using c by (simp_all add: n1_def)
  obtain m1 where cp1: "copy_samples (nat n1) (s_active_buffer_ptr st + ?c) src off (s_buffers st) = Some m1"
    using copy_samples_Some [of "nat n1" "s_active_buffer_ptr st + ?c" src off "s_buffers st"]
      n1(1) c slot base by (auto simp add: ptr)
  define st1 where "st1 = st\<lparr>s_buffers := m1, s_active_buffer_entry_count := ?c + n1\<rparr>"
  define st2 where "st2 = (if uint32_of (s_active_buffer_entry_count st1) \<ge> DATA_BUFFER_ENTRIES
                then switch_to_next_buffer ?g st1 else st1)"
  note unf = data_processor_buffers_unfold [OF ng free n1_def cp1 st1_def st2_def]
  have i1: "0 \<le> s_active_buffer_index st1" "s_active_buffer_index st1 < NUM_BUFFERS"
    "s_active_buffer_ptr st1 = s_active_buffer_index st1 * DATA_BUFFER_ENTRIES"
    using i ptr by (simp_all add: st1_def)
  have st2_fill: "s_unwrapped_filled_buffer_counter st2 = s_unwrapped_filled_buffer_counter st \<or>
        s_unwrapped_filled_buffer_counter st2 = s_unwrapped_filled_buffer_counter st + 1"
    by (simp add: st2_def st1_def)
  have i2: "0 \<le> s_active_buffer_index st2" "s_active_buffer_index st2 < NUM_BUFFERS"
    "s_active_buffer_ptr st2 = s_active_buffer_index st2 * DATA_BUFFER_ENTRIES"
    using i1 switch_active_index [OF i1(1,2), of ?g] by (simp_all add: st2_def)
  have final: ?thesis
    if "data_processor_buffers ps src off count st = Some st'"
      and "s_unwrapped_filled_buffer_counter st' = s_unwrapped_filled_buffer_counter st \<or>
           s_unwrapped_filled_buffer_counter st' = s_unwrapped_filled_buffer_counter st + 1"
      and "0 \<le> count \<Longrightarrow> buffers_wf st'"
      and "0 \<le> count \<Longrightarrow>
           s_unwrapped_filled_buffer_counter st' * DATA_BUFFER_ENTRIES + s_active_buffer_entry_count st' =
           s_unwrapped_filled_buffer_counter st * DATA_BUFFER_ENTRIES + s_active_buffer_entry_count st + count"
    for st'
    using that by blast
  show ?thesis
  proof (cases "count - n1 > 0")
    case False
    then have eq: "n1 = count" using n1(2) by simp
    have r: "data_processor_buffers ps src off count st = Some st2"
      using unf False by simp
    have e1: "s_active_buffer_entry_count st1 = ?c + count" by (simp add: st1_def eq)
    have u1: "uint32_of (?c + count) = ?c + count" if "0 \<le> count"
      using that c n1(1) eq by (intro uint32_of_id) (simp_all add: DATA_BUFFER_ENTRIES_def)
    have w: "buffers_wf st2" if "0 \<le> count"
    proof (cases "uint32_of (s_active_buffer_entry_count st1) \<ge> DATA_BUFFER_ENTRIES")
      case True
      then show ?thesis using switch_wf [OF i1(1,2), of ?g] by (simp add: st2_def)
    next
      case False
      then have "?c + count < DATA_BUFFER_ENTRIES"
        using u1 [OF that] by (simp add: e1)
      then show ?thesis
        using False i1 that c by (simp add: st2_def buffers_wf_def e1)
    qed
    have acct: "s_unwrapped_filled_buffer_counter st2 * DATA_BUFFER_ENTRIES + s_active_buffer_entry_count st2 =
           s_unwrapped_filled_buffer_counter st * DATA_BUFFER_ENTRIES + ?c + count" if "0 \<le> count"
    proof (cases "uint32_of (s_active_buffer_entry_count st1) \<ge> DATA_BUFFER_ENTRIES")
      case True
      then have "?c + count = DATA_BUFFER_ENTRIES"
        using u1 [OF that] n1(1) eq by (simp add: e1)
      then show ?thesis using True by (simp add: st2_def st1_def algebra_simps)
    next
      case False
      then show ?thesis by (simp add: st2_def st1_def eq)
    qed
    show ?thesis by (rule final [OF r st2_fill w acct])
  next
    case True
    then have eq: "n1 = DATA_BUFFER_ENTRIES - ?c" and lt: "DATA_BUFFER_ENTRIES - ?c < count"
      by (simp_all add: n1_def split: if_splits)
    have e1: "s_active_buffer_entry_count st1 = DATA_BUFFER_ENTRIES" by (simp add: st1_def eq)
    have sw: "st2 = switch_to_next_buffer ?g st1"
      by (simp add: st2_def e1 uint32_of_def DATA_BUFFER_ENTRIES_def)
    have e2: "s_active_buffer_entry_count st2 = 0" by (simp add: sw)
    have f2: "s_unwrapped_filled_buffer_counter st2 = s_unwrapped_filled_buffer_counter st + 1"
      by (simp add: sw st1_def)
    have rem: "0 < count - n1" "count - n1 < DATA_BUFFER_ENTRIES"
      using True cnt c eq by simp_all
    obtain m2 where cp2: "copy_samples (nat (count - n1))
          (s_active_buffer_ptr st2 + s_active_buffer_entry_count st2) src (off + int (nat n1)) (s_buffers st2) = Some m2"
      using copy_samples_Some [of "nat (count - n1)" "s_active_buffer_ptr st2 + s_active_buffer_entry_count st2"
          src "off + int (nat n1)" "s_buffers st2"] rem i2
      by (auto simp add: e2 NUM_BUFFERS_def DATA_BUFFER_ENTRIES_def)
    let ?st3 = "st2\<lparr>s_buffers := m2,
        s_active_buffer_entry_count := s_active_buffer_entry_count st2 + (count - n1)\<rparr>"
    have r: "data_processor_buffers ps src off count st = Some ?st3"
      unfolding unf using True by (simp only: if_True cp2 option.case)
    have fill3: "s_unwrapped_filled_buffer_counter ?st3 = s_unwrapped_filled_buffer_counter st \<or>
           s_unwrapped_filled_buffer_counter ?st3 = s_unwrapped_filled_buffer_counter st + 1"
      by (simp add: f2)
    have wf3: "buffers_wf ?st3"
      using i2 rem by (simp add: buffers_wf_def e2)
    have acct: "s_unwrapped_filled_buffer_counter ?st3 * DATA_BUFFER_ENTRIES + s_active_buffer_entry_count ?st3 =
           s_unwrapped_filled_buffer_counter st * DATA_BUFFER_ENTRIES + ?c + count"
      by (simp add: f2 e2 eq algebra_simps)
    show ?thesis by (rule final [OF r fill3 wf3 acct])
  qed
qed

text \<open>
  The result of a call with at most a buffer of samples, in closed form: either the samples
  go behind the entries of the active slot, or they fill it, the rotation block runs, and the
  rest goes to the start of the next slot.
\<close>

lemma with_samples_empty [simp]: "with_samples mem d 0 src p = mem"
  by (rule ext) (auto simp add: with_samples_def)

lemma copy_samples_with:
  assumes "0 \<le> n" "n = 0 \<or> (0 \<le> d \<and> d + n \<le> NUM_BUFFERS * DATA_BUFFER_ENTRIES)"
  shows "copy_samples (nat n) d src p m = Some (with_samples m d n src p)"
  using assms copy_samples_Some [of "nat n" d src p m]
  by (auto simp add: with_samples_def)

lemma switch_ptr: "s_active_buffer_ptr (switch_to_next_buffer g st) = next_slot st * DATA_BUFFER_ENTRIES"
  by (simp add: switch_to_next_buffer_def Let_def next_slot_def)

lemma switch_samples_entry:
  "(switch_to_next_buffer g st)\<lparr>s_buffers := m, s_active_buffer_entry_count := 0\<rparr> =
   (switch_to_next_buffer g st)\<lparr>s_buffers := m\<rparr>"
  by (simp add: switch_to_next_buffer_def Let_def)

lemma data_processor_buffers_result:
  assumes wf: "buffers_wf st" and ng: "\<not> (gated_recording ps \<and> s_is_gated st)"
    and c0: "0 \<le> count" and c1: "count \<le> DATA_BUFFER_ENTRIES"
  shows "data_processor_buffers ps src off count st =
     (let e = s_active_buffer_entry_count st;
          free = DATA_BUFFER_ENTRIES - e;
          target = s_active_buffer_ptr st + e
      in if count < free then
           Some (st\<lparr>s_buffers := with_samples (s_buffers st) target count src off,
                    s_active_buffer_entry_count := e + count\<rparr>)
         else
           Some ((switch_to_next_buffer (gated_recording ps) st)
                   \<lparr>s_buffers := with_samples (with_samples (s_buffers st) target free src off)
                                   (next_slot st * DATA_BUFFER_ENTRIES) (count - free) src (off + free),
                    s_active_buffer_entry_count := count - free\<rparr>))"
proof -
  let ?c = "s_active_buffer_entry_count st"
  let ?i = "s_active_buffer_index st"
  let ?g = "gated_recording ps"
  let ?free = "DATA_BUFFER_ENTRIES - ?c"
  let ?target = "s_active_buffer_ptr st + ?c"
  have i: "0 \<le> ?i" "?i < NUM_BUFFERS" and ptr: "s_active_buffer_ptr st = ?i * DATA_BUFFER_ENTRIES"
    and c: "0 \<le> ?c" "?c < DATA_BUFFER_ENTRIES"
    using wf by (simp_all add: buffers_wf_def)
  have free: "?free = int32_of (uint32_of ?free)"
    using c by (simp add: int32_of_def uint32_of_def DATA_BUFFER_ENTRIES_def)
  have slot: "?i * DATA_BUFFER_ENTRIES + DATA_BUFFER_ENTRIES \<le> NUM_BUFFERS * DATA_BUFFER_ENTRIES"
    using i by (simp add: NUM_BUFFERS_def DATA_BUFFER_ENTRIES_def)
  have base: "0 \<le> ?i * DATA_BUFFER_ENTRIES"
    using i by (simp add: DATA_BUFFER_ENTRIES_def)
  define n1 where "n1 = (if ?free < count then ?free else count)"
  have n1: "n1 \<le> ?free" "n1 \<le> count" "0 \<le> n1"
    using c c0 by (simp_all add: n1_def)
  define m1 where "m1 = with_samples (s_buffers st) ?target n1 src off"
  have cp1: "copy_samples (nat n1) ?target src off (s_buffers st) = Some m1"
    unfolding m1_def using n1 c slot base by (intro copy_samples_with) (simp_all add: ptr)
  define st1 where "st1 = st\<lparr>s_buffers := m1, s_active_buffer_entry_count := ?c + n1\<rparr>"
  define st2 where "st2 = (if uint32_of (s_active_buffer_entry_count st1) \<ge> DATA_BUFFER_ENTRIES
                then switch_to_next_buffer ?g st1 else st1)"
  note unf = data_processor_buffers_unfold [OF ng free n1_def cp1 st1_def st2_def]
  have u1: "uint32_of (?c + n1) = ?c + n1"
    using c n1 by (intro uint32_of_id) (simp_all add: DATA_BUFFER_ENTRIES_def)
  have nn: "int (nat n1) = n1" using n1 by simp
  show ?thesis
  proof (cases "count < ?free")
    case True
    then have eq: "n1 = count" by (simp add: n1_def)
    have s2: "st2 = st1" using True u1 by (simp add: st2_def st1_def eq)
    have "data_processor_buffers ps src off count st = Some st1"
      using unf by (simp add: eq s2)
    then show ?thesis using True by (simp add: Let_def st1_def m1_def eq)
  next
    case False
    then have eq: "n1 = ?free" by (simp add: n1_def)
    have s2: "st2 = (switch_to_next_buffer ?g st)\<lparr>s_buffers := m1\<rparr>"
      using u1 by (simp add: st2_def st1_def eq switch_ignores_samples)
    have p2: "s_active_buffer_ptr st2 = next_slot st * DATA_BUFFER_ENTRIES"
      "s_active_buffer_entry_count st2 = 0" "s_buffers st2 = m1"
      by (simp_all add: s2 switch_ptr)
    have ns: "0 \<le> next_slot st" "next_slot st < NUM_BUFFERS"
      using i by (simp_all add: next_slot_def NUM_BUFFERS_def)
    have rem: "0 \<le> count - ?free" "count - ?free < DATA_BUFFER_ENTRIES"
      using False c1 c by simp_all
    have room: "next_slot st * DATA_BUFFER_ENTRIES + (count - ?free) \<le> NUM_BUFFERS * DATA_BUFFER_ENTRIES"
      using ns rem by (simp add: NUM_BUFFERS_def DATA_BUFFER_ENTRIES_def)
    have base2: "0 \<le> next_slot st * DATA_BUFFER_ENTRIES"
      using ns by (simp add: DATA_BUFFER_ENTRIES_def)
    have cp2: "copy_samples (nat (count - ?free)) (next_slot st * DATA_BUFFER_ENTRIES) src (off + ?free) m1 =
        Some (with_samples m1 (next_slot st * DATA_BUFFER_ENTRIES) (count - ?free) src (off + ?free))"
      using rem room base2 by (intro copy_samples_with) simp_all
    show ?thesis
    proof (cases "count - n1 > 0")
      case True
      have "data_processor_buffers ps src off count st =
          Some (st2\<lparr>s_buffers := with_samples m1 (next_slot st * DATA_BUFFER_ENTRIES) (count - ?free) src (off + ?free),
                    s_active_buffer_entry_count := count - ?free\<rparr>)"
        using unf True cp2 nn by (simp add: p2 eq)
      then show ?thesis using False by (simp add: Let_def s2 m1_def eq)
    next
      case z: False
      then have cf: "count = ?free" using False eq by simp
      have "data_processor_buffers ps src off count st = Some st2"
        using unf z by simp
      then show ?thesis
        using False cf by (simp add: Let_def s2 m1_def eq switch_samples_entry)
    qed
  qed
qed

text \<open>
  A call that reaches the end of the active slot runs the rotation block once; every call
  stores each of its samples at its address and leaves the other addresses alone; and a full
  buffer of silence on silent memory is the rotation block and nothing else.
\<close>

lemma append_completes_slot:
  assumes wf: "buffers_wf st" and ng: "\<not> (gated_recording ps \<and> s_is_gated st)"
    and c0: "DATA_BUFFER_ENTRIES - s_active_buffer_entry_count st \<le> count"
    and c1: "count \<le> DATA_BUFFER_ENTRIES"
  shows "\<exists>st'. data_processor_buffers ps src off count st = Some st' \<and>
           fifo st' = fifo (switch_to_next_buffer (gated_recording ps) st) \<and>
           s_is_gated st' = s_is_gated (switch_to_next_buffer (gated_recording ps) st) \<and>
           s_is_triggered st' = s_is_triggered (switch_to_next_buffer (gated_recording ps) st) \<and>
           s_unwrapped_filled_buffer_counter st' = s_unwrapped_filled_buffer_counter st + 1 \<and>
           s_active_buffer_index st' = next_slot st"
proof -
  have "0 \<le> s_active_buffer_entry_count st" "s_active_buffer_entry_count st < DATA_BUFFER_ENTRIES"
    using wf by (simp_all add: buffers_wf_def)
  then have "0 \<le> count" using c0 by simp
  from data_processor_buffers_result [OF wf ng this c1, of src off] c0
  show ?thesis
    by (simp add: Let_def switch_to_next_buffer_def next_slot_def)
qed

lemma append_stores_samples:
  assumes wf: "buffers_wf st" and ng: "\<not> (gated_recording ps \<and> s_is_gated st)"
    and c0: "0 \<le> count" and c1: "count \<le> DATA_BUFFER_ENTRIES"
  shows "\<exists>st'. data_processor_buffers ps src off count st = Some st' \<and>
           (\<forall>i. 0 \<le> i \<and> i < count \<longrightarrow> s_buffers st' (sample_address st i) = src (off + i)) \<and>
           (\<forall>a. (\<forall>i. 0 \<le> i \<and> i < count \<longrightarrow> a \<noteq> sample_address st i) \<longrightarrow>
                  s_buffers st' a = s_buffers st a)"
proof -
  let ?c = "s_active_buffer_entry_count st"
  let ?i = "s_active_buffer_index st"
  let ?free = "DATA_BUFFER_ENTRIES - ?c"
  let ?target = "s_active_buffer_ptr st + ?c"
  let ?next = "next_slot st * DATA_BUFFER_ENTRIES"
  have i: "0 \<le> ?i" "?i < NUM_BUFFERS" and ptr: "s_active_buffer_ptr st = ?i * DATA_BUFFER_ENTRIES"
    and c: "0 \<le> ?c" "?c < DATA_BUFFER_ENTRIES"
    using wf by (simp_all add: buffers_wf_def)
  note res = data_processor_buffers_result [OF wf ng c0 c1, of src off]
  show ?thesis
  proof (cases "count < ?free")
    case True
    have r: "data_processor_buffers ps src off count st =
        Some (st\<lparr>s_buffers := with_samples (s_buffers st) ?target count src off,
                 s_active_buffer_entry_count := ?c + count\<rparr>)"
      using res True by (simp add: Let_def)
    have a: "sample_address st j = ?target + j" if "j < count" for j
      using that True by (simp add: sample_address_def Let_def)
    have s: "with_samples (s_buffers st) ?target count src off (sample_address st j) = src (off + j)"
      if "0 \<le> j" "j < count" for j
      using that by (simp add: a with_samples_def)
    have o: "with_samples (s_buffers st) ?target count src off b = s_buffers st b"
      if "\<forall>j. 0 \<le> j \<and> j < count \<longrightarrow> b \<noteq> sample_address st j" for b
    proof (cases "?target \<le> b \<and> b < ?target + count")
      case False
      then show ?thesis by (auto simp add: with_samples_def)
    next
      case True
      then have "0 \<le> b - ?target" "b - ?target < count" by simp_all
      with that have "b \<noteq> sample_address st (b - ?target)" by blast
      moreover have "sample_address st (b - ?target) = b"
        using a [of "b - ?target"] \<open>b - ?target < count\<close> by simp
      ultimately show ?thesis by simp
    qed
    show ?thesis using r s o by simp
  next
    case False
    let ?m1 = "with_samples (s_buffers st) ?target ?free src off"
    let ?m2 = "with_samples ?m1 ?next (count - ?free) src (off + ?free)"
    have r: "data_processor_buffers ps src off count st =
        Some ((switch_to_next_buffer (gated_recording ps) st)
                \<lparr>s_buffers := ?m2, s_active_buffer_entry_count := count - ?free\<rparr>)"
      using res False by (simp add: Let_def)
    have ne: "next_slot st \<noteq> ?i" "0 \<le> next_slot st"
      using i by (simp_all add: next_slot_def NUM_BUFFERS_def)
    have rem: "count - ?free < DATA_BUFFER_ENTRIES" using c1 c by simp
    have disj: "\<not> (?next \<le> b \<and> b < ?next + (count - ?free))"
      if "?target \<le> b" "b < ?target + ?free" for b
    proof
      assume h: "?next \<le> b \<and> b < ?next + (count - ?free)"
      have b1: "?i * DATA_BUFFER_ENTRIES \<le> b" "b < (?i + 1) * DATA_BUFFER_ENTRIES"
        using that c by (simp_all add: ptr algebra_simps)
      have b2: "next_slot st * DATA_BUFFER_ENTRIES \<le> b" "b < (next_slot st + 1) * DATA_BUFFER_ENTRIES"
        using h rem by (simp_all add: algebra_simps)
      have "?i = b div DATA_BUFFER_ENTRIES"
        using b1 i by (simp add: DATA_BUFFER_ENTRIES_def)
      moreover have "next_slot st = b div DATA_BUFFER_ENTRIES"
        using b2 ne by (simp add: DATA_BUFFER_ENTRIES_def)
      ultimately show False using ne by simp
    qed
    have a1: "sample_address st j = ?target + j" if "j < ?free" for j
      using that by (simp add: sample_address_def Let_def)
    have a2: "sample_address st j = ?next + (j - ?free)" if "\<not> j < ?free" for j
      using that by (simp add: sample_address_def Let_def)
    have s: "?m2 (sample_address st j) = src (off + j)" if "0 \<le> j" "j < count" for j
    proof (cases "j < ?free")
      case True
      have "\<not> (?next \<le> ?target + j \<and> ?target + j < ?next + (count - ?free))"
        using disj [of "?target + j"] that True by simp
      then have "?m2 (?target + j) = ?m1 (?target + j)"
        by (auto simp add: with_samples_def)
      also have "\<dots> = src (off + j)" using that True by (simp add: with_samples_def)
      finally show ?thesis by (simp add: a1 [OF True])
    next
      case nf: False
      then have "?m2 (?next + (j - ?free)) = src (off + ?free + (j - ?free))"
        using that by (simp add: with_samples_def)
      then show ?thesis by (simp add: a2 [OF nf])
    qed
    have o: "?m2 b = s_buffers st b"
      if h: "\<forall>j. 0 \<le> j \<and> j < count \<longrightarrow> b \<noteq> sample_address st j" for b
    proof -
      have n2: "\<not> (?next \<le> b \<and> b < ?next + (count - ?free))"
      proof
        assume in2: "?next \<le> b \<and> b < ?next + (count - ?free)"
        let ?j = "?free + (b - ?next)"
        have j: "0 \<le> ?j" "?j < count" "\<not> ?j < ?free" using in2 c by simp_all
        from h j(1,2) have "b \<noteq> sample_address st ?j" by blast
        moreover have "sample_address st ?j = b" using a2 [OF j(3)] by simp
        ultimately show False by simp
      qed
      have n1: "\<not> (?target \<le> b \<and> b < ?target + ?free)"
      proof
        assume in1: "?target \<le> b \<and> b < ?target + ?free"
        let ?j = "b - ?target"
        have j: "0 \<le> ?j" "?j < count" "?j < ?free" using in1 False by simp_all
        from h j(1,2) have "b \<noteq> sample_address st ?j" by blast
        moreover have "sample_address st ?j = b" using a1 [OF j(3)] by simp
        ultimately show False by simp
      qed
      show ?thesis using n1 n2 by (auto simp add: with_samples_def)
    qed
    show ?thesis using r s o by simp
  qed
qed

lemma silent_slot:
  assumes wf: "buffers_wf st" and ng: "\<not> (gated_recording ps \<and> s_is_gated st)"
    and ec: "s_active_buffer_entry_count st = 0"
    and quiet: "s_buffers st = (\<lambda>a. 0)"
  shows "data_processor_buffers ps silence 0 DATA_BUFFER_ENTRIES st =
           Some (switch_to_next_buffer (gated_recording ps) st)"
proof -
  have pos: "0 \<le> DATA_BUFFER_ENTRIES" by (simp add: DATA_BUFFER_ENTRIES_def)
  have w: "with_samples (\<lambda>a. 0) d n silence p = (\<lambda>a. 0)" for d n p
    by (rule ext) (simp add: with_samples_def silence_def)
  have id: "(switch_to_next_buffer g st)\<lparr>s_buffers := \<lambda>a. 0, s_active_buffer_entry_count := 0\<rparr> =
      switch_to_next_buffer g st" for g
    using quiet by (simp add: switch_to_next_buffer_def Let_def)
  from data_processor_buffers_result [OF wf ng pos order_refl, of silence 0]
  show ?thesis
    by (simp add: Let_def ec quiet w id)
qed

text \<open>
  A call with a full buffer of samples runs the rotation block once, whatever the entry count,
  and a run of such calls is a run of rotation blocks, up to the sample memory.
\<close>

lemma full_buffer_call:
  assumes wf: "buffers_wf st" and ng: "\<not> (gated_recording ps \<and> s_is_gated st)"
  shows "\<exists>M. data_processor_buffers ps src off DATA_BUFFER_ENTRIES st =
           Some ((switch_to_next_buffer (gated_recording ps) st)
                   \<lparr>s_buffers := M, s_active_buffer_entry_count := s_active_buffer_entry_count st\<rparr>)"
proof -
  have pos: "0 \<le> DATA_BUFFER_ENTRIES" by (simp add: DATA_BUFFER_ENTRIES_def)
  have c: "0 \<le> s_active_buffer_entry_count st"
    using wf by (simp add: buffers_wf_def)
  have nl: "\<not> DATA_BUFFER_ENTRIES < DATA_BUFFER_ENTRIES - s_active_buffer_entry_count st"
    using c by simp
  from data_processor_buffers_result [OF wf ng pos order_refl, of src off] nl
  have "data_processor_buffers ps src off DATA_BUFFER_ENTRIES st =
      Some ((switch_to_next_buffer (gated_recording ps) st)
        \<lparr>s_buffers :=
           with_samples
            (with_samples (s_buffers st)
              (s_active_buffer_ptr st + s_active_buffer_entry_count st)
              (DATA_BUFFER_ENTRIES - s_active_buffer_entry_count st) src off)
            (next_slot st * DATA_BUFFER_ENTRIES)
            (s_active_buffer_entry_count st) src
            (off + (DATA_BUFFER_ENTRIES - s_active_buffer_entry_count st)),
         s_active_buffer_entry_count := s_active_buffer_entry_count st\<rparr>)"
    by (simp add: Let_def)
  then show ?thesis by blast
qed

lemma switch_iterate_samples:
  "(switch_to_next_buffer g ^^ n) (st\<lparr>s_buffers := M, s_active_buffer_entry_count := e\<rparr>) =
   ((switch_to_next_buffer g ^^ n) st)
     \<lparr>s_buffers := M,
      s_active_buffer_entry_count := (if n = 0 then e else s_active_buffer_entry_count ((switch_to_next_buffer g ^^ n) st))\<rparr>"
proof (induction n)
  case 0
  show ?case by simp
next
  case (Suc n)
  have a: "switch_to_next_buffer g (X\<lparr>s_buffers := M, s_active_buffer_entry_count := e'\<rparr>) =
      (switch_to_next_buffer g X)\<lparr>s_buffers := M, s_active_buffer_entry_count := 0\<rparr>" for X e'
    by (simp add: switch_to_next_buffer_def Let_def)
  show ?case by (simp add: Suc a)
qed

lemma append_buffers_switch:
  assumes "buffers_wf st"
    and "\<forall>i<length srcs. \<not> (gated_recording ps \<and>
           s_is_gated ((switch_to_next_buffer (gated_recording ps) ^^ i) st))"
  shows "\<exists>M. append_buffers srcs ps st =
           Some (((switch_to_next_buffer (gated_recording ps) ^^ length srcs) st)
                   \<lparr>s_buffers := M, s_active_buffer_entry_count := s_active_buffer_entry_count st\<rparr>)"
  using assms
proof (induction srcs arbitrary: st)
  case Nil
  have "st = st\<lparr>s_buffers := s_buffers st, s_active_buffer_entry_count := s_active_buffer_entry_count st\<rparr>"
    by simp
  then show ?case by (intro exI [of _ "s_buffers st"]) simp
next
  case (Cons src srcs)
  let ?g = "gated_recording ps"
  let ?e = "s_active_buffer_entry_count st"
  have ng: "\<not> (?g \<and> s_is_gated st)" using Cons.prems(2) by auto
  from full_buffer_call [OF Cons.prems(1) ng, of src 0]
  obtain M1 where r: "data_processor_buffers ps src 0 DATA_BUFFER_ENTRIES st =
      Some ((switch_to_next_buffer ?g st)\<lparr>s_buffers := M1, s_active_buffer_entry_count := ?e\<rparr>)"
    by blast
  let ?s1 = "(switch_to_next_buffer ?g st)\<lparr>s_buffers := M1, s_active_buffer_entry_count := ?e\<rparr>"
  have i: "0 \<le> s_active_buffer_index st" "s_active_buffer_index st < NUM_BUFFERS"
    and e: "0 \<le> ?e" "?e < DATA_BUFFER_ENTRIES"
    using Cons.prems(1) by (simp_all add: buffers_wf_def)
  have wf1: "buffers_wf ?s1"
    using switch_wf [OF i, of ?g] e by (simp add: buffers_wf_def)
  have it: "(switch_to_next_buffer ?g ^^ n) ?s1 =
      ((switch_to_next_buffer ?g ^^ Suc n) st)
        \<lparr>s_buffers := M1,
         s_active_buffer_entry_count :=
           (if n = 0 then ?e else s_active_buffer_entry_count ((switch_to_next_buffer ?g ^^ Suc n) st))\<rparr>" for n
    unfolding switch_iterate_samples by (simp add: funpow_swap1)
  have gates: "\<forall>i<length srcs. \<not> (?g \<and> s_is_gated ((switch_to_next_buffer ?g ^^ i) ?s1))"
  proof (intro allI impI)
    fix i assume "i < length srcs"
    then have "Suc i < length (src # srcs)" by simp
    with Cons.prems(2) have "\<not> (?g \<and> s_is_gated ((switch_to_next_buffer ?g ^^ Suc i) st))" by blast
    then show "\<not> (?g \<and> s_is_gated ((switch_to_next_buffer ?g ^^ i) ?s1))"
      unfolding it by simp
  qed
  from Cons.IH [OF wf1 gates]
  obtain M where m: "append_buffers srcs ps ?s1 =
      Some (((switch_to_next_buffer ?g ^^ length srcs) ?s1)
              \<lparr>s_buffers := M, s_active_buffer_entry_count := s_active_buffer_entry_count ?s1\<rparr>)"
    by blast
  have "append_buffers (src # srcs) ps st =
      Some (((switch_to_next_buffer ?g ^^ length (src # srcs)) st)
              \<lparr>s_buffers := M, s_active_buffer_entry_count := ?e\<rparr>)"
    using r m unfolding it by simp
  then show ?case by blast
qed

lemma append_buffers_fields:
  assumes "buffers_wf st"
    and "\<forall>i<length srcs. \<not> (gated_recording ps \<and>
           s_is_gated ((switch_to_next_buffer (gated_recording ps) ^^ i) st))"
  shows "\<exists>st'. append_buffers srcs ps st = Some st' \<and>
           fifo st' = fifo ((switch_to_next_buffer (gated_recording ps) ^^ length srcs) st) \<and>
           s_is_triggered st' =
             s_is_triggered ((switch_to_next_buffer (gated_recording ps) ^^ length srcs) st) \<and>
           s_is_gated st' =
             s_is_gated ((switch_to_next_buffer (gated_recording ps) ^^ length srcs) st) \<and>
           s_unwrapped_filled_buffer_counter st' =
             s_unwrapped_filled_buffer_counter ((switch_to_next_buffer (gated_recording ps) ^^ length srcs) st)"
proof -
  from append_buffers_switch [OF assms] obtain M where
    "append_buffers srcs ps st =
       Some (((switch_to_next_buffer (gated_recording ps) ^^ length srcs) st)
               \<lparr>s_buffers := M, s_active_buffer_entry_count := s_active_buffer_entry_count st\<rparr>)"
    by blast
  then show ?thesis by simp
qed

lemma nearly_full_values:
  "s_active_buffer_index nearly_full_state = 35"
  "s_active_buffer_ptr nearly_full_state = 35 * DATA_BUFFER_ENTRIES"
  "s_active_buffer_entry_count nearly_full_state = DATA_BUFFER_ENTRIES - 1"
  "\<not> s_is_gated nearly_full_state"
  by (simp_all add: nearly_full_state_def data_processor_buffers_reset_def)

lemma nearly_full_wf: "buffers_wf nearly_full_state"
  by (simp add: buffers_wf_def nearly_full_values NUM_BUFFERS_def DATA_BUFFER_ENTRIES_def)

lemma nearly_full_overrun:
  "data_processor_buffers example_settings src off (DATA_BUFFER_ENTRIES + 2) nearly_full_state = None"
proof -
  let ?st = nearly_full_state
  have ng: "\<not> (gated_recording example_settings \<and> s_is_gated ?st)"
    by (simp add: example_settings_def)
  have free: "1 = int32_of (uint32_of (DATA_BUFFER_ENTRIES - s_active_buffer_entry_count ?st))"
    by (simp add: nearly_full_values int32_of_def uint32_of_def)
  have n1: "(1::int) = (if 1 < DATA_BUFFER_ENTRIES + 2 then 1 else DATA_BUFFER_ENTRIES + 2)"
    by (simp add: DATA_BUFFER_ENTRIES_def)
  obtain m1 where cp1: "copy_samples (nat 1) (s_active_buffer_ptr ?st + s_active_buffer_entry_count ?st)
      src off (s_buffers ?st) = Some m1"
    using copy_samples_Some [of "nat 1" "s_active_buffer_ptr ?st + s_active_buffer_entry_count ?st"
      src off "s_buffers ?st"]
    by (auto simp add: nearly_full_values NUM_BUFFERS_def DATA_BUFFER_ENTRIES_def)
  define st1 where "st1 = ?st\<lparr>s_buffers := m1,
      s_active_buffer_entry_count := s_active_buffer_entry_count ?st + 1\<rparr>"
  define st2 where "st2 = (if uint32_of (s_active_buffer_entry_count st1) \<ge> DATA_BUFFER_ENTRIES
                then switch_to_next_buffer (gated_recording example_settings) st1 else st1)"
  note unf = data_processor_buffers_unfold [OF ng free n1 cp1 st1_def st2_def]
  have e1: "s_active_buffer_entry_count st1 = DATA_BUFFER_ENTRIES"
    by (simp add: st1_def nearly_full_values)
  have sw: "st2 = switch_to_next_buffer (gated_recording example_settings) st1"
    by (simp add: st2_def e1 uint32_of_def DATA_BUFFER_ENTRIES_def)
  have p2: "s_active_buffer_ptr st2 = 36 * DATA_BUFFER_ENTRIES" "s_active_buffer_entry_count st2 = 0"
    by (simp_all add: sw switch_to_next_buffer_def Let_def st1_def nearly_full_values NUM_BUFFERS_def)
  have cp2: "copy_samples (nat (DATA_BUFFER_ENTRIES + 2 - 1))
      (s_active_buffer_ptr st2 + s_active_buffer_entry_count st2) src (off + int (nat 1)) (s_buffers st2) = None"
    by (rule copy_samples_None) (simp_all add: p2 NUM_BUFFERS_def DATA_BUFFER_ENTRIES_def)
  have pos: "DATA_BUFFER_ENTRIES + 2 - 1 > 0" by (simp add: DATA_BUFFER_ENTRIES_def)
  show ?thesis
    unfolding unf using pos by (simp only: if_True cp2 option.case)
qed

text \<open>
  Claim C10. For every call of \<open>data_processor_buffers\<close> with a sample count of at most
  \<open>DATA_BUFFER_ENTRIES\<close> on a well-formed buffer state, every write lands inside the array
  \<open>s_buffers\<close> (the call returns a state), at most one buffer is counted as filled, and for a
  non-negative count the state stays well-formed. With a larger count the bound fails: with
  one free entry left in slot 35 and \<open>DATA_BUFFER_ENTRIES + 2\<close> samples, the second copy writes
  \<open>DATA_BUFFER_ENTRIES + 1\<close> samples into slot 36 without a further fill check and leaves the
  array.
\<close>

theorem append_stays_in_bounds:
  "(buffers_wf st \<and> count \<le> DATA_BUFFER_ENTRIES \<longrightarrow>
      (\<exists>st'. data_processor_buffers ps src off count st = Some st' \<and>
         (s_unwrapped_filled_buffer_counter st' = s_unwrapped_filled_buffer_counter st \<or>
          s_unwrapped_filled_buffer_counter st' = s_unwrapped_filled_buffer_counter st + 1) \<and>
         (0 \<le> count \<longrightarrow> buffers_wf st'))) \<and>
   buffers_wf nearly_full_state \<and>
   data_processor_buffers example_settings src off (DATA_BUFFER_ENTRIES + 2) nearly_full_state = None"
proof -
  have "\<exists>st'. data_processor_buffers ps src off count st = Some st' \<and>
         (s_unwrapped_filled_buffer_counter st' = s_unwrapped_filled_buffer_counter st \<or>
          s_unwrapped_filled_buffer_counter st' = s_unwrapped_filled_buffer_counter st + 1) \<and>
         (0 \<le> count \<longrightarrow> buffers_wf st')"
    if "buffers_wf st" "count \<le> DATA_BUFFER_ENTRIES"
    using data_processor_buffers_total [OF that, of ps src off] by blast
  then show ?thesis
    using nearly_full_wf nearly_full_overrun by blast
qed

theorem append_stays_in_bounds_witness:
  "buffers_wf example_ring_state \<and> 100 \<le> DATA_BUFFER_ENTRIES \<and>
   (\<exists>st'. data_processor_buffers example_settings silence 0 100 example_ring_state = Some st' \<and>
      buffers_wf st')"
proof -
  have a: "buffers_wf example_ring_state"
    by (simp add: buffers_wf_def example_ring_state_def data_processor_buffers_reset_def
        NUM_BUFFERS_def DATA_BUFFER_ENTRIES_def)
  have b: "100 \<le> DATA_BUFFER_ENTRIES" by (simp add: DATA_BUFFER_ENTRIES_def)
  show ?thesis
    using append_stays_in_bounds [of example_ring_state 100 example_settings silence 0] a b
    by auto
qed

section \<open>The triggered sequence\<close>

lemma example_ring_values:
  "s_buffers_per_second example_ring_state = 11"
  "s_unwrapped_filled_buffer_counter example_ring_state = 50"
  "s_mode example_ring_state = DATA_PROCESSOR_TRIGGERED"
  "\<not> s_is_triggered example_ring_state"
  "\<not> s_is_gated example_ring_state"
  "s_gate_released_ticks example_ring_state = 0"
  "s_buffer_fifo_count (fifo example_ring_state) = 0"
  by (simp_all add: example_ring_state_def data_processor_buffers_reset_def int32_of_def
      uint32_of_def DATA_BUFFER_ENTRIES_def initial_buffers_state_def)

lemma example_ring_durations:
  "minimum_buffers example_settings example_ring_state = 22"
  "backfill_count example_settings example_ring_state = 5"
  "fresh_final example_settings example_ring_state = 72"
  "backfill_count deep_pretrigger_settings example_ring_state = 22"
  "fresh_final deep_pretrigger_settings example_ring_state = 72"
  by code_simp+

lemma example_settings_signs:
  "0 \<le> pretrigger_time_s example_settings" "0 \<le> min_sampling_time_s example_settings"
  "0 \<le> pretrigger_time_s deep_pretrigger_settings" "0 \<le> min_sampling_time_s deep_pretrigger_settings"
  "gated_recording deep_pretrigger_settings" "\<not> gated_recording example_settings"
  by (simp_all add: example_settings_def deep_pretrigger_settings_def gated_settings_def)


lemma trigger_then_run:
  assumes acc: "trigger_accepted tick st"
    and nt: "\<not> s_is_triggered st"
    and mode: "s_mode st = DATA_PROCESSOR_TRIGGERED"
    and k0: "0 \<le> s_unwrapped_filled_buffer_counter st"
    and k31: "s_unwrapped_filled_buffer_counter st < 2 ^ 31"
    and bps: "0 \<le> s_buffers_per_second st"
    and pre: "0 \<le> pretrigger_time_s ps"
    and mn: "0 \<le> min_sampling_time_s ps"
    and fin: "fresh_final ps st < 2 ^ 31"
    and k: "k = s_unwrapped_filled_buffer_counter st"
    and p: "p = backfill_count ps st"
    and F: "F = fresh_final ps st"
    and c: "c = s_buffer_fifo_count (fifo st)"
    and st1: "st1 = data_processor_buffers_on_trigger ps tick st"
  shows "fifo st1 = fold buffer_fifo_put (START_TOKEN # [k - p .. k - 1]) (fifo st)"
    and "s_is_triggered st1"
    and "s_final_unwrapped_buffer_for_trigger st1 = F"
    and "int n \<le> F - k + 1 \<Longrightarrow> (g \<longrightarrow> int c + 1 + p + int n \<le> NUM_BUFFERS + 1) \<Longrightarrow>
           fifo ((switch_to_next_buffer g ^^ n) st1) =
             fold buffer_fifo_put (START_TOKEN # [k - p .. k - 1] @ [k .. k + int n - 1]) (fifo st) \<and>
           s_is_triggered ((switch_to_next_buffer g ^^ n) st1) \<and>
           \<not> s_is_gated ((switch_to_next_buffer g ^^ n) st1)"
    and "(g \<longrightarrow> int c + 1 + p + int (nat (F - k + 1)) \<le> NUM_BUFFERS + 1) \<Longrightarrow>
           fifo ((switch_to_next_buffer g ^^ Suc (nat (F - k + 1))) st1) =
             fold buffer_fifo_put (START_TOKEN # [k - p .. k - 1] @ [k .. F] @ [END_TOKEN]) (fifo st) \<and>
           \<not> s_is_triggered ((switch_to_next_buffer g ^^ Suc (nat (F - k + 1))) st1) \<and>
           (s_is_gated ((switch_to_next_buffer g ^^ Suc (nat (F - k + 1))) st1) \<longleftrightarrow> g)"
    and "g \<Longrightarrow> j = nat (NUM_BUFFERS + 1 - (int c + 1 + p)) \<Longrightarrow> int j < F - k + 1 \<Longrightarrow>
           fifo ((switch_to_next_buffer g ^^ Suc j) st1) =
             fold buffer_fifo_put (START_TOKEN # [k - p .. k - 1] @ [k .. k + int j - 1] @ [END_TOKEN]) (fifo st) \<and>
           s_is_triggered ((switch_to_next_buffer g ^^ Suc j) st1) \<and>
           s_is_gated ((switch_to_next_buffer g ^^ Suc j) st1)"
    and "\<not> s_is_gated st1"
    and "buffers_wf st1 = buffers_wf st"
proof -
  have eq: "st1 = st\<lparr> s_trigger_count := s_trigger_count st + 1,
         s_trigger_unwrapped_buffer_count := k,
         fifo := fold buffer_fifo_put (START_TOKEN # [k - p .. k - 1]) (fifo st),
         s_final_unwrapped_buffer_for_trigger := F,
         s_is_triggered := True \<rparr>"
    using on_trigger_new [OF acc nt k0 k31 bps pre mn fin] k p F st1 by simp
  have p0: "0 \<le> p" "p \<le> 35" using backfill_bounds [OF k0 bps pre] p by simp_all
  show q1: "fifo st1 = fold buffer_fifo_put (START_TOKEN # [k - p .. k - 1]) (fifo st)"
    and t1: "s_is_triggered st1"
    and f1: "s_final_unwrapped_buffer_for_trigger st1 = F"
    by (simp_all add: eq)
  have m1: "s_mode st1 = DATA_PROCESSOR_TRIGGERED"
    and k1: "s_unwrapped_filled_buffer_counter st1 = k"
    using mode k by (simp_all add: eq)
  have g1: "\<not> s_is_gated st1"
    using acc by (simp add: eq trigger_accepted_def)
  have c1: "s_buffer_fifo_count (fifo st1) = c + 1 + nat p"
    using p0 by (simp add: q1 c)
  have ic: "int (c + 1 + nat p) = int c + 1 + p" using p0 by simp
  note run = triggered_run [OF m1 t1 k1 f1 g1 c1, where g = g, unfolded ic]
  show "\<not> s_is_gated st1" by (rule g1)
  show "buffers_wf st1 = buffers_wf st" by (simp add: eq buffers_wf_def)
  show "fifo ((switch_to_next_buffer g ^^ n) st1) =
             fold buffer_fifo_put (START_TOKEN # [k - p .. k - 1] @ [k .. k + int n - 1]) (fifo st) \<and>
           s_is_triggered ((switch_to_next_buffer g ^^ n) st1) \<and>
           \<not> s_is_gated ((switch_to_next_buffer g ^^ n) st1)"
    if "int n \<le> F - k + 1" "g \<longrightarrow> int c + 1 + p + int n \<le> NUM_BUFFERS + 1"
    using run(1) [OF that] by (simp add: q1)
  show "fifo ((switch_to_next_buffer g ^^ Suc (nat (F - k + 1))) st1) =
             fold buffer_fifo_put (START_TOKEN # [k - p .. k - 1] @ [k .. F] @ [END_TOKEN]) (fifo st) \<and>
           \<not> s_is_triggered ((switch_to_next_buffer g ^^ Suc (nat (F - k + 1))) st1) \<and>
           (s_is_gated ((switch_to_next_buffer g ^^ Suc (nat (F - k + 1))) st1) \<longleftrightarrow> g)"
    if "g \<longrightarrow> int c + 1 + p + int (nat (F - k + 1)) \<le> NUM_BUFFERS + 1"
    using run(2) [OF that] by (simp add: q1)
  show "fifo ((switch_to_next_buffer g ^^ Suc j) st1) =
             fold buffer_fifo_put (START_TOKEN # [k - p .. k - 1] @ [k .. k + int j - 1] @ [END_TOKEN]) (fifo st) \<and>
           s_is_triggered ((switch_to_next_buffer g ^^ Suc j) st1) \<and>
           s_is_gated ((switch_to_next_buffer g ^^ Suc j) st1)"
    if "g" "j = nat (NUM_BUFFERS + 1 - (int c + 1 + p))" "int j < F - k + 1"
    using run(3) [OF that] by (simp add: q1)
qed

lemma fresh_final_whole:
  assumes "0 \<le> s_unwrapped_filled_buffer_counter st" "0 \<le> d"
    and "float_mul (float_of_int (s_buffers_per_second st)) (min_sampling_time_s ps) = real_of_int d"
    and "s_unwrapped_filled_buffer_counter st + d \<le> 2 ^ 24"
  shows "fresh_final ps st = s_unwrapped_filled_buffer_counter st + d"
  unfolding fresh_final_def assms(3) using assms(1,2,4) by (rule float_sum_exact)

lemma example_ring_wf: "buffers_wf example_ring_state"
  by (simp add: example_ring_state_def data_processor_buffers_reset_def buffers_wf_def
      NUM_BUFFERS_def DATA_BUFFER_ENTRIES_def initial_buffers_state_def)

lemma example_ring_fifo:
  "fifo_wf (fifo example_ring_state)"
  "fifo_tokens (fifo example_ring_state) = []"
  by code_simp+




section \<open>Gated recording\<close>

lemma switch_continuous_gated:
  assumes "s_mode st = DATA_PROCESSOR_CONTINUOUS"
  shows "fifo (switch_to_next_buffer True st) =
           (if NUM_BUFFERS + 1 \<le> int (s_buffer_fifo_count (fifo st)) + 1
            then buffer_fifo_put END_TOKEN
                   (buffer_fifo_put (s_unwrapped_filled_buffer_counter st) (fifo st))
            else buffer_fifo_put (s_unwrapped_filled_buffer_counter st) (fifo st))"
    and "s_is_gated (switch_to_next_buffer True st) \<longleftrightarrow>
           s_is_gated st \<or> NUM_BUFFERS + 1 \<le> int (s_buffer_fifo_count (fifo st)) + 1"
    and "s_is_triggered (switch_to_next_buffer True st) = s_is_triggered st"
  using assms by (simp_all add: switch_to_next_buffer_def Let_def END_TOKEN_def)

lemma switch_triggered_gated:
  assumes "s_mode st = DATA_PROCESSOR_TRIGGERED" and "s_is_triggered st"
  shows "fifo (switch_to_next_buffer True st) =
           (if s_unwrapped_filled_buffer_counter st > s_final_unwrapped_buffer_for_trigger st \<or>
               NUM_BUFFERS + 1 \<le> int (s_buffer_fifo_count (fifo st))
            then buffer_fifo_put END_TOKEN (fifo st)
            else buffer_fifo_put (s_unwrapped_filled_buffer_counter st) (fifo st))"
    and "s_is_gated (switch_to_next_buffer True st) \<longleftrightarrow>
           s_is_gated st \<or>
           s_unwrapped_filled_buffer_counter st > s_final_unwrapped_buffer_for_trigger st \<or>
           NUM_BUFFERS + 1 \<le> int (s_buffer_fifo_count (fifo st))"
    and "s_is_triggered (switch_to_next_buffer True st) \<longleftrightarrow>
           \<not> s_unwrapped_filled_buffer_counter st > s_final_unwrapped_buffer_for_trigger st"
  using assms by (simp_all add: switch_to_next_buffer_def Let_def END_TOKEN_def)

lemma switch_triggered_idle:
  assumes "s_mode st = DATA_PROCESSOR_TRIGGERED" and "\<not> s_is_triggered st"
  shows "fifo (switch_to_next_buffer g st) = fifo st"
    and "s_is_gated (switch_to_next_buffer g st) = s_is_gated st"
    and "s_is_triggered (switch_to_next_buffer g st) = s_is_triggered st"
  using assms by (simp_all add: switch_to_next_buffer_def Let_def)

lemma on_recording_complete_fields:
  "\<not> s_is_gated (data_processor_buffers_on_recording_complete ps tick st)"
  "fifo (data_processor_buffers_on_recording_complete ps tick st) = buffer_fifo_put START_TOKEN (fifo st)"
  "s_gate_released_ticks (data_processor_buffers_on_recording_complete ps tick st) = tick"
  "s_is_triggered (data_processor_buffers_on_recording_complete ps tick st) = s_is_triggered st"
  "s_mode (data_processor_buffers_on_recording_complete ps tick st) = s_mode st"
  "s_unwrapped_filled_buffer_counter (data_processor_buffers_on_recording_complete ps tick st) =
     s_unwrapped_filled_buffer_counter st"
  "s_active_buffer_entry_count (data_processor_buffers_on_recording_complete ps tick st) =
     s_active_buffer_entry_count st"
  "s_buffers_per_second (data_processor_buffers_on_recording_complete ps tick st) =
     s_buffers_per_second st"
  "buffers_wf (data_processor_buffers_on_recording_complete ps tick st) = buffers_wf st"
  by (cases "s_mode st";
      simp add: data_processor_buffers_on_recording_complete_def Let_def START_TOKEN_def buffers_wf_def)+

lemma data_processor_buffers_gated:
  "gated_recording ps \<Longrightarrow> s_is_gated st \<Longrightarrow> data_processor_buffers ps src off count st = Some st"
  by (simp add: data_processor_buffers_def)

lemma on_recording_complete_samples:
  "s_buffers (data_processor_buffers_on_recording_complete ps tick st) = s_buffers st"
  "sample_address (data_processor_buffers_on_recording_complete ps tick st) = sample_address st"
  by (cases "s_mode st";
      simp add: data_processor_buffers_on_recording_complete_def Let_def sample_address_def
        next_slot_def fun_eq_iff)+

lemma gated_window_values:
  "buffers_wf gated_window_state"
  "s_active_buffer_entry_count gated_window_state = 0"
  "s_buffers gated_window_state = (\<lambda>a. 0)"
  "\<not> s_is_gated gated_window_state"
  "s_mode gated_window_state = DATA_PROCESSOR_TRIGGERED"
  "s_is_triggered gated_window_state"
  "s_buffer_fifo_count (fifo gated_window_state) = 37"
  "s_unwrapped_filled_buffer_counter gated_window_state = 64"
  "s_final_unwrapped_buffer_for_trigger gated_window_state = 72"
  by (simp_all add: gated_window_state_def example_ring_state_def data_processor_buffers_reset_def
      initial_buffers_state_def buffers_wf_def NUM_BUFFERS_def DATA_BUFFER_ENTRIES_def)

text \<open>
  Claim C7, as stated: with gated recording enabled, whenever the FIFO occupancy reaches
  \<open>NUM_BUFFERS + 1\<close> entries an END token is put and the gate is set. It fails in triggered
  mode. In a triggered session whose FIFO holds 37 entries (START and the indices 28 to 63)
  and whose trigger window lasts until index 72, the call that completes slot 64 puts the
  index 64: the FIFO has reached 38 entries, holds no END, and the gate is clear. Only the
  call that completes the next slot puts END and sets the gate, and the index 65 of that slot
  is never put. The session gets there from a trigger at fill counter 50 that backfills 22
  buffers: 15 calls with a full buffer each later the FIFO holds START and the indices 28 to
  64, and the gate is clear.
\<close>

theorem full_fifo_without_end_counterexample:
  "gated_recording deep_pretrigger_settings \<and>
   s_mode gated_window_state = DATA_PROCESSOR_TRIGGERED \<and> s_is_triggered gated_window_state \<and>
   \<not> s_is_gated gated_window_state \<and>
   s_buffer_fifo_count (fifo gated_window_state) = 37 \<and>
   data_processor_buffers deep_pretrigger_settings silence 0 DATA_BUFFER_ENTRIES gated_window_state =
     Some (switch_to_next_buffer True gated_window_state) \<and>
   fifo_tokens (fifo (switch_to_next_buffer True gated_window_state)) = START_TOKEN # [28 .. 64] \<and>
   int (s_buffer_fifo_count (fifo (switch_to_next_buffer True gated_window_state))) = NUM_BUFFERS + 1 \<and>
   END_TOKEN \<notin> set (fifo_tokens (fifo (switch_to_next_buffer True gated_window_state))) \<and>
   \<not> s_is_gated (switch_to_next_buffer True gated_window_state) \<and>
   data_processor_buffers deep_pretrigger_settings silence 0 DATA_BUFFER_ENTRIES
       (switch_to_next_buffer True gated_window_state) =
     Some (switch_to_next_buffer True (switch_to_next_buffer True gated_window_state)) \<and>
   fifo_tokens (fifo (switch_to_next_buffer True (switch_to_next_buffer True gated_window_state))) =
     START_TOKEN # [28 .. 64] @ [END_TOKEN] \<and>
   s_is_gated (switch_to_next_buffer True (switch_to_next_buffer True gated_window_state)) \<and>
   map_option (\<lambda>s. (fifo_tokens (fifo s), s_is_gated s))
     (append_buffers (replicate 15 silence) deep_pretrigger_settings
        (data_processor_buffers_on_trigger deep_pretrigger_settings 20 example_ring_state)) =
     Some (START_TOKEN # [28 .. 49] @ [50 .. 64], False)"
proof -
  let ?s1 = "switch_to_next_buffer True gated_window_state"
  let ?t1 = "data_processor_buffers_on_trigger deep_pretrigger_settings 20 example_ring_state"
  have g: "gated_recording deep_pretrigger_settings"
    by (simp add: deep_pretrigger_settings_def gated_settings_def)
  have g': "gated_recording deep_pretrigger_settings = True" using g by simp
  have ng: "\<not> (gated_recording deep_pretrigger_settings \<and> s_is_gated gated_window_state)"
    by (simp add: gated_window_values)
  have c1: "data_processor_buffers deep_pretrigger_settings silence 0 DATA_BUFFER_ENTRIES gated_window_state =
      Some ?s1"
    using silent_slot [OF gated_window_values(1) ng gated_window_values(2,3)] by (simp add: g')
  have t1: "fifo_tokens (fifo ?s1) = START_TOKEN # [28 .. 64]" by code_simp
  have n1: "int (s_buffer_fifo_count (fifo ?s1)) = NUM_BUFFERS + 1" by code_simp
  have e1: "END_TOKEN \<notin> set (fifo_tokens (fifo ?s1))"
    unfolding t1 by (simp add: tokens_values)
  have g1: "\<not> s_is_gated ?s1" by code_simp
  have wf1: "buffers_wf ?s1"
    using gated_window_values(1) by (intro switch_wf) (simp_all add: buffers_wf_def)
  have ng1: "\<not> (gated_recording deep_pretrigger_settings \<and> s_is_gated ?s1)"
    using g1 by simp
  have q1: "s_buffers ?s1 = (\<lambda>a. 0)" by (simp add: gated_window_values)
  have c2: "data_processor_buffers deep_pretrigger_settings silence 0 DATA_BUFFER_ENTRIES ?s1 =
      Some (switch_to_next_buffer True ?s1)"
    using silent_slot [OF wf1 ng1 _ q1] by (simp add: g')
  have t2: "fifo_tokens (fifo (switch_to_next_buffer True ?s1)) = START_TOKEN # [28 .. 64] @ [END_TOKEN]"
    by code_simp
  have g2: "s_is_gated (switch_to_next_buffer True ?s1)" by code_simp
  have acc: "trigger_accepted 20 example_ring_state"
    by (simp add: trigger_accepted_def example_ring_values)
  have k0: "0 \<le> s_unwrapped_filled_buffer_counter example_ring_state"
    "s_unwrapped_filled_buffer_counter example_ring_state < 2 ^ 31"
    "0 \<le> s_buffers_per_second example_ring_state"
    "fresh_final deep_pretrigger_settings example_ring_state < 2 ^ 31"
    by (simp_all add: example_ring_values example_ring_durations)
  note run = trigger_then_run [OF acc example_ring_values(4,3) k0(1-3) example_settings_signs(3,4)
      k0(4) refl refl refl refl refl,
      unfolded example_ring_values example_ring_durations]
  have step: "fifo ((switch_to_next_buffer True ^^ i) ?t1) =
      fold buffer_fifo_put (START_TOKEN # [28 .. 49] @ [50 .. 50 + int i - 1]) (fifo example_ring_state) \<and>
      s_is_triggered ((switch_to_next_buffer True ^^ i) ?t1) \<and>
      \<not> s_is_gated ((switch_to_next_buffer True ^^ i) ?t1)" if "i \<le> 15" for i
  proof -
    have "int i \<le> 72 - 50 + 1" "True \<longrightarrow> int 0 + 1 + 22 + int i \<le> NUM_BUFFERS + 1"
      using that by (simp_all add: NUM_BUFFERS_def)
    from run(4) [OF this] show ?thesis by simp
  qed
  have wft: "buffers_wf ?t1" using run(8) example_ring_wf by simp
  have gates: "\<forall>i<length (replicate 15 silence). \<not> (gated_recording deep_pretrigger_settings \<and>
      s_is_gated ((switch_to_next_buffer (gated_recording deep_pretrigger_settings) ^^ i) ?t1))"
    unfolding g' using step by simp
  from append_buffers_fields [OF wft gates]
  obtain s' where r: "append_buffers (replicate 15 silence) deep_pretrigger_settings ?t1 = Some s'"
    and f: "fifo s' = fifo ((switch_to_next_buffer True ^^ 15) ?t1)"
    and gt: "s_is_gated s' = s_is_gated ((switch_to_next_buffer True ^^ 15) ?t1)"
    unfolding g' by auto
  have room: "s_buffer_fifo_count (fifo example_ring_state) +
      length (START_TOKEN # [28 .. 49] @ [50 .. 64]) \<le> BUFFER_FIFO_LENGTH"
    by (simp add: example_ring_values BUFFER_FIFO_LENGTH_val)
  have tok: "fifo_tokens (fifo s') = START_TOKEN # [28 .. 49] @ [50 .. 64]"
    using step [of 15] fold_put_tokens [OF example_ring_fifo(1) room]
    by (simp add: f example_ring_fifo(2))
  have ngt: "\<not> s_is_gated s'" using step [of 15] gt by simp
  have calls: "map_option (\<lambda>s. (fifo_tokens (fifo s), s_is_gated s))
     (append_buffers (replicate 15 silence) deep_pretrigger_settings ?t1) =
     Some (START_TOKEN # [28 .. 49] @ [50 .. 64], False)"
    using r tok ngt by simp
  show ?thesis
    using g gated_window_values(4-7) c1 t1 n1 e1 g1 c2 t2 g2 calls by simp
qed

text \<open>
  Claim C7, amended. With gated recording enabled, for a well-formed write cursor and a call
  of \<open>data_processor_buffers\<close> with at most a buffer of samples. While the gate is set every
  call returns the state as it was, samples, FIFO and all. While the gate is clear, a call
  that reaches the end of the active slot does this to the FIFO: in continuous mode it puts
  the slot index \<open>k\<close>, and when the FIFO has reached \<open>NUM_BUFFERS + 1\<close> entries with it, puts
  exactly one END and sets the gate; in triggered mode while triggered it puts exactly one END
  and sets the gate when the trigger window is over (\<open>k\<close> has passed the final index; the
  trigger is cleared) or when the FIFO already held \<open>NUM_BUFFERS + 1\<close> entries before the
  call, and otherwise it puts \<open>k\<close> and leaves the gate clear, also when that brings the FIFO
  to \<open>NUM_BUFFERS + 1\<close> entries; in triggered mode with no trigger active it leaves the FIFO
  and the gate alone. \<open>data_processor_buffers_on_recording_complete\<close> clears the gate and
  puts a START token, and the next call stores each of its samples in \<open>s_buffers\<close>, at the
  write cursor, and changes no other sample.
\<close>

theorem gated_recording_cycle:
  assumes "gated_recording ps" and "buffers_wf st"
    and "0 \<le> count" and "count \<le> DATA_BUFFER_ENTRIES"
    and "k = s_unwrapped_filled_buffer_counter st"
    and "rc = data_processor_buffers_on_recording_complete ps tick st"
  shows "(s_is_gated st \<longrightarrow>
            (\<forall>src' off' count'. data_processor_buffers ps src' off' count' st = Some st)) \<and>
         (\<not> s_is_gated st \<and> DATA_BUFFER_ENTRIES - s_active_buffer_entry_count st \<le> count \<longrightarrow>
            (\<exists>st'. data_processor_buffers ps src off count st = Some st' \<and>
               s_unwrapped_filled_buffer_counter st' = k + 1 \<and>
               (s_mode st = DATA_PROCESSOR_CONTINUOUS \<longrightarrow>
                  (if NUM_BUFFERS \<le> int (s_buffer_fifo_count (fifo st))
                   then fifo st' = buffer_fifo_put END_TOKEN (buffer_fifo_put k (fifo st)) \<and>
                        s_is_gated st'
                   else fifo st' = buffer_fifo_put k (fifo st) \<and> \<not> s_is_gated st')) \<and>
               (s_mode st = DATA_PROCESSOR_TRIGGERED \<and> s_is_triggered st \<longrightarrow>
                  (if k > s_final_unwrapped_buffer_for_trigger st
                   then fifo st' = buffer_fifo_put END_TOKEN (fifo st) \<and>
                        s_is_gated st' \<and> \<not> s_is_triggered st'
                   else if NUM_BUFFERS + 1 \<le> int (s_buffer_fifo_count (fifo st))
                   then fifo st' = buffer_fifo_put END_TOKEN (fifo st) \<and>
                        s_is_gated st' \<and> s_is_triggered st'
                   else fifo st' = buffer_fifo_put k (fifo st) \<and>
                        \<not> s_is_gated st' \<and> s_is_triggered st')) \<and>
               (s_mode st = DATA_PROCESSOR_TRIGGERED \<and> \<not> s_is_triggered st \<longrightarrow>
                  fifo st' = fifo st \<and> \<not> s_is_gated st'))) \<and>
         \<not> s_is_gated rc \<and>
         fifo rc = buffer_fifo_put START_TOKEN (fifo st) \<and>
         (\<exists>st'. data_processor_buffers ps src off count rc = Some st' \<and>
            (\<forall>i. 0 \<le> i \<and> i < count \<longrightarrow> s_buffers st' (sample_address st i) = src (off + i)) \<and>
            (\<forall>a. (\<forall>i. 0 \<le> i \<and> i < count \<longrightarrow> a \<noteq> sample_address st i) \<longrightarrow>
                   s_buffers st' a = s_buffers st a) \<and>
            s_unwrapped_filled_buffer_counter st' * DATA_BUFFER_ENTRIES + s_active_buffer_entry_count st' =
              k * DATA_BUFFER_ENTRIES + s_active_buffer_entry_count st + count)"
proof -
  let ?g = "gated_recording ps"
  have g': "?g = True" using assms(1) by simp
  have gate: "s_is_gated st \<longrightarrow>
      (\<forall>src' off' count'. data_processor_buffers ps src' off' count' st = Some st)"
    using assms(1) by (simp add: data_processor_buffers_gated)
  have slot: "\<exists>st'. data_processor_buffers ps src off count st = Some st' \<and>
               s_unwrapped_filled_buffer_counter st' = k + 1 \<and>
               (s_mode st = DATA_PROCESSOR_CONTINUOUS \<longrightarrow>
                  (if NUM_BUFFERS \<le> int (s_buffer_fifo_count (fifo st))
                   then fifo st' = buffer_fifo_put END_TOKEN (buffer_fifo_put k (fifo st)) \<and>
                        s_is_gated st'
                   else fifo st' = buffer_fifo_put k (fifo st) \<and> \<not> s_is_gated st')) \<and>
               (s_mode st = DATA_PROCESSOR_TRIGGERED \<and> s_is_triggered st \<longrightarrow>
                  (if k > s_final_unwrapped_buffer_for_trigger st
                   then fifo st' = buffer_fifo_put END_TOKEN (fifo st) \<and>
                        s_is_gated st' \<and> \<not> s_is_triggered st'
                   else if NUM_BUFFERS + 1 \<le> int (s_buffer_fifo_count (fifo st))
                   then fifo st' = buffer_fifo_put END_TOKEN (fifo st) \<and>
                        s_is_gated st' \<and> s_is_triggered st'
                   else fifo st' = buffer_fifo_put k (fifo st) \<and>
                        \<not> s_is_gated st' \<and> s_is_triggered st')) \<and>
               (s_mode st = DATA_PROCESSOR_TRIGGERED \<and> \<not> s_is_triggered st \<longrightarrow>
                  fifo st' = fifo st \<and> \<not> s_is_gated st')"
    if ng: "\<not> s_is_gated st" and full: "DATA_BUFFER_ENTRIES - s_active_buffer_entry_count st \<le> count"
  proof -
    have ng': "\<not> (?g \<and> s_is_gated st)" using ng by simp
    from append_completes_slot [OF assms(2) ng' full assms(4), of src off]
    obtain st' where r: "data_processor_buffers ps src off count st = Some st'"
      and f: "fifo st' = fifo (switch_to_next_buffer True st)"
      and gt: "s_is_gated st' = s_is_gated (switch_to_next_buffer True st)"
      and tr: "s_is_triggered st' = s_is_triggered (switch_to_next_buffer True st)"
      and fl: "s_unwrapped_filled_buffer_counter st' = k + 1"
      unfolding g' assms(5) by blast
    have cont: "(if NUM_BUFFERS \<le> int (s_buffer_fifo_count (fifo st))
                   then fifo st' = buffer_fifo_put END_TOKEN (buffer_fifo_put k (fifo st)) \<and>
                        s_is_gated st'
                   else fifo st' = buffer_fifo_put k (fifo st) \<and> \<not> s_is_gated st')"
      if "s_mode st = DATA_PROCESSOR_CONTINUOUS"
      using switch_continuous_gated [OF that] ng by (simp add: f gt assms(5))
    have trig: "(if k > s_final_unwrapped_buffer_for_trigger st
                   then fifo st' = buffer_fifo_put END_TOKEN (fifo st) \<and>
                        s_is_gated st' \<and> \<not> s_is_triggered st'
                   else if NUM_BUFFERS + 1 \<le> int (s_buffer_fifo_count (fifo st))
                   then fifo st' = buffer_fifo_put END_TOKEN (fifo st) \<and>
                        s_is_gated st' \<and> s_is_triggered st'
                   else fifo st' = buffer_fifo_put k (fifo st) \<and>
                        \<not> s_is_gated st' \<and> s_is_triggered st')"
      if "s_mode st = DATA_PROCESSOR_TRIGGERED" "s_is_triggered st"
      using switch_triggered_gated [OF that] ng by (simp add: f gt tr assms(5))
    have idle: "fifo st' = fifo st \<and> \<not> s_is_gated st'"
      if "s_mode st = DATA_PROCESSOR_TRIGGERED" "\<not> s_is_triggered st"
      using switch_triggered_idle [OF that, of True] ng by (simp add: f gt)
    show ?thesis
      using r fl cont trig idle by blast
  qed
  have rc: "\<not> s_is_gated rc" "fifo rc = buffer_fifo_put START_TOKEN (fifo st)"
    unfolding assms(6) by (simp_all add: on_recording_complete_fields)
  have resume: "\<exists>st'. data_processor_buffers ps src off count rc = Some st' \<and>
            (\<forall>i. 0 \<le> i \<and> i < count \<longrightarrow> s_buffers st' (sample_address st i) = src (off + i)) \<and>
            (\<forall>a. (\<forall>i. 0 \<le> i \<and> i < count \<longrightarrow> a \<noteq> sample_address st i) \<longrightarrow>
                   s_buffers st' a = s_buffers st a) \<and>
            s_unwrapped_filled_buffer_counter st' * DATA_BUFFER_ENTRIES + s_active_buffer_entry_count st' =
              k * DATA_BUFFER_ENTRIES + s_active_buffer_entry_count st + count"
  proof -
    have wf: "buffers_wf rc" using assms(2) by (simp add: assms(6) on_recording_complete_fields)
    have ng: "\<not> (?g \<and> s_is_gated rc)" using rc(1) by simp
    from append_stores_samples [OF wf ng assms(3,4), of src off]
    obtain st' where r: "data_processor_buffers ps src off count rc = Some st'"
      and s: "\<forall>i. 0 \<le> i \<and> i < count \<longrightarrow> s_buffers st' (sample_address rc i) = src (off + i)"
      and o: "\<forall>a. (\<forall>i. 0 \<le> i \<and> i < count \<longrightarrow> a \<noteq> sample_address rc i) \<longrightarrow>
                   s_buffers st' a = s_buffers rc a"
      by blast
    from data_processor_buffers_total [OF wf assms(4), of ps src off] r assms(3) ng
    have acct: "s_unwrapped_filled_buffer_counter st' * DATA_BUFFER_ENTRIES + s_active_buffer_entry_count st' =
        s_unwrapped_filled_buffer_counter rc * DATA_BUFFER_ENTRIES + s_active_buffer_entry_count rc + count"
      by auto
    have same: "sample_address rc = sample_address st" "s_buffers rc = s_buffers st"
      "s_unwrapped_filled_buffer_counter rc = k" "s_active_buffer_entry_count rc = s_active_buffer_entry_count st"
      unfolding assms(5,6)
      by (simp_all add: on_recording_complete_samples on_recording_complete_fields)
    show ?thesis
      using r s o acct unfolding same by blast
  qed
  show ?thesis
    using gate slot rc resume by blast
qed

lemma gated_continuous_values:
  "buffers_wf gated_continuous_state"
  "s_mode gated_continuous_state = DATA_PROCESSOR_CONTINUOUS"
  "\<not> s_is_gated gated_continuous_state"
  "s_active_buffer_entry_count gated_continuous_state = 0"
  "s_active_buffer_ptr gated_continuous_state = 0"
  "s_unwrapped_filled_buffer_counter gated_continuous_state = 37"
  "s_buffer_fifo_count (fifo gated_continuous_state) = 37"
  by (simp_all add: gated_continuous_state_def data_processor_buffers_reset_def
      initial_buffers_state_def buffers_wf_def NUM_BUFFERS_def DATA_BUFFER_ENTRIES_def)

theorem gated_recording_cycle_witness:
  "gated_recording gated_settings \<and> buffers_wf gated_continuous_state \<and>
   (\<exists>st'. data_processor_buffers gated_settings ramp 0 DATA_BUFFER_ENTRIES gated_continuous_state =
            Some st' \<and>
          fifo st' = buffer_fifo_put END_TOKEN (buffer_fifo_put 37 (fifo gated_continuous_state)) \<and>
          s_is_gated st') \<and>
   (\<exists>st'. data_processor_buffers gated_settings ramp 0 DATA_BUFFER_ENTRIES
            (data_processor_buffers_on_recording_complete gated_settings 20 gated_continuous_state) =
            Some st' \<and>
          s_buffers st' 5 = ramp 5) \<and>
   s_is_gated (switch_to_next_buffer True gated_continuous_state) \<and>
   data_processor_buffers gated_settings ramp 0 100 (switch_to_next_buffer True gated_continuous_state) =
     Some (switch_to_next_buffer True gated_continuous_state) \<and>
   (\<exists>st'. data_processor_buffers gated_settings ramp 0 DATA_BUFFER_ENTRIES gated_window_state =
            Some st' \<and>
          fifo st' = buffer_fifo_put 64 (fifo gated_window_state) \<and>
          \<not> s_is_gated st' \<and> s_is_triggered st')"
proof -
  have g: "gated_recording gated_settings" by (simp add: gated_settings_def)
  have pos: "0 \<le> DATA_BUFFER_ENTRIES" by (simp add: DATA_BUFFER_ENTRIES_def)
  note T1 = gated_recording_cycle [OF g gated_continuous_values(1) pos order_refl refl refl,
      of ramp 0 20]
  have full: "\<not> s_is_gated gated_continuous_state \<and>
      DATA_BUFFER_ENTRIES - s_active_buffer_entry_count gated_continuous_state \<le> DATA_BUFFER_ENTRIES"
    by (simp add: gated_continuous_values)
  have n: "NUM_BUFFERS \<le> int (s_buffer_fifo_count (fifo gated_continuous_state))"
    by (simp add: gated_continuous_values NUM_BUFFERS_def)
  have a: "\<exists>st'. data_processor_buffers gated_settings ramp 0 DATA_BUFFER_ENTRIES gated_continuous_state =
            Some st' \<and>
          fifo st' = buffer_fifo_put END_TOKEN (buffer_fifo_put 37 (fifo gated_continuous_state)) \<and>
          s_is_gated st'"
  proof -
    from T1 [THEN conjunct2, THEN conjunct1] full
    obtain st' where r: "data_processor_buffers gated_settings ramp 0 DATA_BUFFER_ENTRIES gated_continuous_state =
            Some st'"
      and c: "s_mode gated_continuous_state = DATA_PROCESSOR_CONTINUOUS \<longrightarrow>
          (if NUM_BUFFERS \<le> int (s_buffer_fifo_count (fifo gated_continuous_state))
           then fifo st' = buffer_fifo_put END_TOKEN
                  (buffer_fifo_put (s_unwrapped_filled_buffer_counter gated_continuous_state)
                     (fifo gated_continuous_state)) \<and> s_is_gated st'
           else fifo st' = buffer_fifo_put (s_unwrapped_filled_buffer_counter gated_continuous_state)
                  (fifo gated_continuous_state) \<and> \<not> s_is_gated st')"
      by blast
    from c n gated_continuous_values(2,6)
    have "fifo st' = buffer_fifo_put END_TOKEN (buffer_fifo_put 37 (fifo gated_continuous_state)) \<and>
          s_is_gated st'"
      by simp
    with r show ?thesis by blast
  qed
  have addr: "sample_address gated_continuous_state 5 = 5"
    by (simp add: sample_address_def gated_continuous_values DATA_BUFFER_ENTRIES_def)
  have five: "(0::int) \<le> 5 \<and> 5 < DATA_BUFFER_ENTRIES" by (simp add: DATA_BUFFER_ENTRIES_def)
  have b: "\<exists>st'. data_processor_buffers gated_settings ramp 0 DATA_BUFFER_ENTRIES
            (data_processor_buffers_on_recording_complete gated_settings 20 gated_continuous_state) =
            Some st' \<and>
          s_buffers st' 5 = ramp 5"
  proof -
    from T1 [THEN conjunct2, THEN conjunct2, THEN conjunct2, THEN conjunct2]
    obtain st' where r: "data_processor_buffers gated_settings ramp 0 DATA_BUFFER_ENTRIES
            (data_processor_buffers_on_recording_complete gated_settings 20 gated_continuous_state) =
            Some st'"
      and s: "\<forall>i. 0 \<le> i \<and> i < DATA_BUFFER_ENTRIES \<longrightarrow>
                s_buffers st' (sample_address gated_continuous_state i) = ramp (0 + i)"
      by blast
    from s five have "s_buffers st' (sample_address gated_continuous_state 5) = ramp (0 + 5)"
      by blast
    then have "s_buffers st' 5 = ramp 5" by (simp add: addr)
    with r show ?thesis by blast
  qed
  let ?s = "switch_to_next_buffer True gated_continuous_state"
  have wf: "buffers_wf ?s"
    using gated_continuous_values(1) by (intro switch_wf) (simp_all add: buffers_wf_def)
  have gs: "s_is_gated ?s"
    using switch_continuous_gated(2) [OF gated_continuous_values(2)] n by simp
  have c100: "(0::int) \<le> 100" "100 \<le> DATA_BUFFER_ENTRIES" by (simp_all add: DATA_BUFFER_ENTRIES_def)
  note T2 = gated_recording_cycle [OF g wf c100 refl refl, of ramp 0 20]
  have c: "data_processor_buffers gated_settings ramp 0 100 ?s = Some ?s"
    using T2 [THEN conjunct1] gs by blast
  note T3 = gated_recording_cycle [OF g gated_window_values(1) pos order_refl refl refl,
      of ramp 0 20]
  have full3: "\<not> s_is_gated gated_window_state \<and>
      DATA_BUFFER_ENTRIES - s_active_buffer_entry_count gated_window_state \<le> DATA_BUFFER_ENTRIES"
    by (simp add: gated_window_values)
  have d: "\<exists>st'. data_processor_buffers gated_settings ramp 0 DATA_BUFFER_ENTRIES gated_window_state =
            Some st' \<and>
          fifo st' = buffer_fifo_put 64 (fifo gated_window_state) \<and>
          \<not> s_is_gated st' \<and> s_is_triggered st'"
  proof -
    from T3 [THEN conjunct2, THEN conjunct1] full3
    obtain st' where r: "data_processor_buffers gated_settings ramp 0 DATA_BUFFER_ENTRIES gated_window_state =
            Some st'"
      and t: "s_mode gated_window_state = DATA_PROCESSOR_TRIGGERED \<and> s_is_triggered gated_window_state \<longrightarrow>
          (if s_unwrapped_filled_buffer_counter gated_window_state >
                s_final_unwrapped_buffer_for_trigger gated_window_state
           then fifo st' = buffer_fifo_put END_TOKEN (fifo gated_window_state) \<and>
                s_is_gated st' \<and> \<not> s_is_triggered st'
           else if NUM_BUFFERS + 1 \<le> int (s_buffer_fifo_count (fifo gated_window_state))
           then fifo st' = buffer_fifo_put END_TOKEN (fifo gated_window_state) \<and>
                s_is_gated st' \<and> s_is_triggered st'
           else fifo st' = buffer_fifo_put (s_unwrapped_filled_buffer_counter gated_window_state)
                  (fifo gated_window_state) \<and>
                \<not> s_is_gated st' \<and> s_is_triggered st')"
      by blast
    from t gated_window_values(5-9)
    have "fifo st' = buffer_fifo_put 64 (fifo gated_window_state) \<and>
          \<not> s_is_gated st' \<and> s_is_triggered st'"
      by (simp add: NUM_BUFFERS_def)
    with r show ?thesis by blast
  qed
  show ?thesis
    using g gated_continuous_values(1) a b gs c d by blast
qed

section \<open>The consumer\<close>

lemma get_count [simp]:
  "s_buffer_fifo_count (snd (buffer_fifo_get f)) = s_buffer_fifo_count f - 1"
  by (simp add: buffer_fifo_get_def)

lemma sniff_Some_iff:
  "buffer_fifo_sniff f = Some t \<longleftrightarrow> 0 < s_buffer_fifo_count f \<and> t = s_buffer_fifo f ! s_buffer_fifo_next_read f"
  by (auto simp add: buffer_fifo_sniff_def)

lemma get_wf:
  assumes "fifo_wf f" and "0 < s_buffer_fifo_count f"
  shows "fifo_wf (snd (buffer_fifo_get f))"
proof -
  let ?L = BUFFER_FIFO_LENGTH
  let ?r = "s_buffer_fifo_next_read f"
  let ?c = "s_buffer_fifo_count f"
  have r: "?r < ?L" and nw: "s_buffer_fifo_next_write f = (?r + ?c) mod ?L"
    and len: "length (s_buffer_fifo f) = ?L" and c: "?c \<le> ?L"
    using assms(1) by (simp_all add: fifo_wf_def)
  have Lpos: "0 < ?L" by (simp add: BUFFER_FIFO_LENGTH_val)
  have "((?r + 1) mod ?L + (?c - 1)) mod ?L = (?r + 1 + (?c - 1)) mod ?L"
    by (simp add: mod_add_left_eq)
  also have "?r + 1 + (?c - 1) = ?r + ?c" using assms(2) by simp
  finally have "s_buffer_fifo_next_write f = ((?r + 1) mod ?L + (?c - 1)) mod ?L"
    using nw by simp
  then show ?thesis
    using assms(2) len c Lpos
    by (simp add: fifo_wf_def buffer_fifo_get_def add_and_wrap_mod [OF r])
qed

lemma get_tokens:
  assumes "fifo_wf f" and "buffer_fifo_sniff f = Some t"
  shows "fifo_tokens f = t # fifo_tokens (snd (buffer_fifo_get f))"
proof -
  let ?L = BUFFER_FIFO_LENGTH
  let ?r = "s_buffer_fifo_next_read f"
  let ?c = "s_buffer_fifo_count f"
  let ?a = "s_buffer_fifo f"
  have pos: "0 < ?c" and t: "t = ?a ! ?r"
    using assms(2) by (simp_all add: sniff_Some_iff)
  have r: "?r < ?L" using assms(1) by (simp add: fifo_wf_def)
  have up: "[0..<?c] = 0 # map Suc [0..<?c - 1]"
    using pos by (metis Suc_pred' map_Suc_upt upt_conv_Cons)
  have "fifo_tokens f = ?a ! (?r mod ?L) # map (\<lambda>k. ?a ! ((?r + Suc k) mod ?L)) [0..<?c - 1]"
    unfolding fifo_tokens_def by (subst up) (simp add: comp_def)
  also have "?a ! (?r mod ?L) = t" using r t by simp
  also have "map (\<lambda>k. ?a ! ((?r + Suc k) mod ?L)) [0..<?c - 1] =
             map (\<lambda>k. ?a ! (((?r + 1) mod ?L + k) mod ?L)) [0..<?c - 1]"
    by (intro map_cong refl) (simp add: mod_add_left_eq)
  also have "\<dots> = fifo_tokens (snd (buffer_fifo_get f))"
    using pos by (simp add: fifo_tokens_def buffer_fifo_get_def add_and_wrap_mod [OF r])
  finally show ?thesis .
qed


declare get_next_loop.simps [simp del]

lemma classify_fifo_update [simp]:
  "is_stale (st\<lparr>fifo := f\<rparr>) t = is_stale st t"
  "is_future (st\<lparr>fifo := f\<rparr>) t = is_future st t"
  "is_stale (st\<lparr>s_is_new_sequence := n\<rparr>) t = is_stale st t"
  "is_future (st\<lparr>s_is_new_sequence := n\<rparr>) t = is_future st t"
  by (simp_all add: is_stale_def is_future_def)

lemma get_next_loop_yield:
  assumes "fifo_wf (fifo st)" and "get_next_loop g st = (cf, Some b, st')"
  shows "\<exists>skipped tok.
           fifo_tokens (fifo st) = skipped @ tok # fifo_tokens (fifo st') \<and>
           \<not> is_end_token tok \<and> \<not> is_start_token tok \<and> \<not> is_stale st tok \<and> \<not> is_future st tok \<and>
           (\<forall>t\<in>set skipped. \<not> is_end_token t \<and> (is_start_token t \<or> is_stale st t \<or> is_future st t)) \<and>
           \<not> cf \<and> fifo_wf (fifo st') \<and>
           s_unwrapped_filled_buffer_counter st' = s_unwrapped_filled_buffer_counter st"
  using assms
proof (induction g st arbitrary: cf b st' rule: get_next_loop.induct)
  case (1 gated st)
  obtain t where sn: "buffer_fifo_sniff (fifo st) = Some t"
    using "1.prems"(2) by (subst (asm) get_next_loop.simps) (auto split: option.splits)
  have tk: "fifo_tokens (fifo st) = t # fifo_tokens (snd (buffer_fifo_get (fifo st)))"
    using get_tokens [OF "1.prems"(1) sn] .
  have wf1: "fifo_wf (snd (buffer_fifo_get (fifo st)))"
    using get_wf [OF "1.prems"(1)] sn by (simp add: sniff_Some_iff)
  have ne: "uint32_of t \<noteq> BUFFERFIFO_END_SEQUENCE"
    using "1.prems"(2) sn by (subst (asm) get_next_loop.simps) (auto split: if_splits)
  have step: ?case
    if rec: "get_next_loop gated st = get_next_loop gated st1"
      and st1: "fifo st1 = snd (buffer_fifo_get (fifo st))"
        "s_unwrapped_filled_buffer_counter st1 = s_unwrapped_filled_buffer_counter st"
      and skip: "is_start_token t \<or> is_stale st t \<or> is_future st t"
      and ih: "\<And>cf b st'. fifo_wf (fifo st1) \<Longrightarrow> get_next_loop gated st1 = (cf, Some b, st') \<Longrightarrow>
          \<exists>skipped tok.
           fifo_tokens (fifo st1) = skipped @ tok # fifo_tokens (fifo st') \<and>
           \<not> is_end_token tok \<and> \<not> is_start_token tok \<and> \<not> is_stale st1 tok \<and> \<not> is_future st1 tok \<and>
           (\<forall>t\<in>set skipped. \<not> is_end_token t \<and> (is_start_token t \<or> is_stale st1 t \<or> is_future st1 t)) \<and>
           \<not> cf \<and> fifo_wf (fifo st') \<and>
           s_unwrapped_filled_buffer_counter st' = s_unwrapped_filled_buffer_counter st1"
    for st1
  proof -
    have "get_next_loop gated st1 = (cf, Some b, st')" using rec "1.prems"(2) by simp
    from ih [OF _ this] wf1 st1(1)
    obtain skipped tok where
      a: "fifo_tokens (fifo st1) = skipped @ tok # fifo_tokens (fifo st')"
      and b: "\<not> is_end_token tok" "\<not> is_start_token tok" "\<not> is_stale st1 tok" "\<not> is_future st1 tok"
      and c: "\<forall>t\<in>set skipped. \<not> is_end_token t \<and> (is_start_token t \<or> is_stale st1 t \<or> is_future st1 t)"
      and d: "\<not> cf" "fifo_wf (fifo st')"
        "s_unwrapped_filled_buffer_counter st' = s_unwrapped_filled_buffer_counter st1"
      by auto
    have same: "is_stale st1 = is_stale st" "is_future st1 = is_future st"
      by (simp_all add: fun_eq_iff is_stale_def is_future_def st1(2))
    have f1: "fifo_tokens (fifo st) = (t # skipped) @ tok # fifo_tokens (fifo st')"
      using tk a st1(1) by simp
    have f2: "\<forall>u\<in>set (t # skipped). \<not> is_end_token u \<and> (is_start_token u \<or> is_stale st u \<or> is_future st u)"
      using c skip ne by (simp add: same is_end_token_def)
    have b': "\<not> is_stale st tok" "\<not> is_future st tok" using b(3,4) by (simp_all add: same)
    have fl: "s_unwrapped_filled_buffer_counter st' = s_unwrapped_filled_buffer_counter st"
      using d(3) st1(2) by simp
    show ?thesis
      using f1 f2 b(1,2) b' d(1,2) fl
      by (intro exI [of _ "t # skipped"] exI [of _ tok]) blast
  qed
  show ?case
  proof (cases "uint32_of t = BUFFERFIFO_START_SEQUENCE")
    case True
    let ?st1 = "st\<lparr>fifo := snd (buffer_fifo_get (fifo st)), s_is_new_sequence := True\<rparr>"
    have rec: "get_next_loop gated st = get_next_loop gated ?st1"
      using ne True by (subst get_next_loop.simps) (simp add: sn)
    show ?thesis
      by (rule step [OF rec _ _ _ "1.IH"(1) [OF sn ne True]])
         (simp_all add: True is_start_token_def)
  next
    case ns: False
    show ?thesis
    proof (cases "t < s_unwrapped_filled_buffer_counter st - NUM_BUFFERS + 1")
      case True
      let ?st1 = "st\<lparr>fifo := snd (buffer_fifo_get (fifo st))\<rparr>"
      have rec: "get_next_loop gated st = get_next_loop gated ?st1"
        using ne ns True by (subst get_next_loop.simps) (simp add: sn)
      show ?thesis
        by (rule step [OF rec _ _ _ "1.IH"(2) [OF sn ne ns True]])
           (use True in \<open>simp_all add: is_stale_def\<close>)
    next
      case nstale: False
      show ?thesis
      proof (cases "s_unwrapped_filled_buffer_counter st \<le> t")
        case True
        let ?st1 = "st\<lparr>fifo := snd (buffer_fifo_get (fifo st))\<rparr>"
        have rec: "get_next_loop gated st = get_next_loop gated ?st1"
          using ne ns nstale True by (subst get_next_loop.simps) (simp add: sn)
        show ?thesis
          by (rule step [OF rec _ _ _ "1.IH"(3) [OF sn ne ns nstale True]])
             (use True in \<open>simp_all add: is_future_def\<close>)
      next
        case nfut: False
        have res: "st' = st\<lparr>s_is_new_sequence := False, fifo := snd (buffer_fifo_get (fifo st))\<rparr> \<and> \<not> cf"
          using "1.prems"(2) ne ns nstale nfut
          by (subst (asm) get_next_loop.simps)
             (auto simp add: sn Let_def split: if_splits)
        have "fifo_tokens (fifo st) = [] @ t # fifo_tokens (fifo st')"
          using tk res by simp
        moreover have "\<not> is_end_token t" "\<not> is_start_token t" "\<not> is_stale st t" "\<not> is_future st t"
          using ne ns nstale nfut
          by (simp_all add: is_end_token_def is_start_token_def is_stale_def is_future_def)
        moreover have "fifo_wf (fifo st')"
          "s_unwrapped_filled_buffer_counter st' = s_unwrapped_filled_buffer_counter st"
          using res wf1 by simp_all
        ultimately show ?thesis
          using res by (intro exI [of _ "[]"] exI [of _ t]) simp
      qed
    qed
  qed
qed

lemma get_next_loop_discard:
  assumes "buffer_fifo_sniff (fifo st) = Some t"
    and "\<not> is_end_token t" and "\<not> is_start_token t"
    and "is_stale st t \<or> is_future st t"
  shows "get_next_loop g st = get_next_loop g (st\<lparr>fifo := snd (buffer_fifo_get (fifo st))\<rparr>)"
  using assms(2-4)
  by (subst get_next_loop.simps)
     (auto simp add: assms(1) is_end_token_def is_start_token_def is_stale_def is_future_def)

text \<open>
  Claim C4. For every state with a well-formed FIFO, a buffer handed out by
  \<open>dataprocessor_buffers_get_next\<close> belongs to a data token inside the retained window (not
  stale, \<open>token \<ge> fill - NUM_BUFFERS + 1\<close>, and not in the future, \<open>token < fill\<close>), and every
  token consumed before it was a START token, a stale index or a future index. A stale or
  future data token at the head of the FIFO is consumed and not returned, and the call goes on
  with the next entry: it gives what the call gives on the FIFO without that token.
\<close>

theorem get_next_discards_unretained:
  "(fifo_wf (fifo st) \<and> dataprocessor_buffers_get_next ps st = (close_file, Some b, st') \<longrightarrow>
      (\<exists>skipped tok.
         fifo_tokens (fifo st) = skipped @ tok # fifo_tokens (fifo st') \<and>
         \<not> is_end_token tok \<and> \<not> is_start_token tok \<and>
         \<not> is_stale st tok \<and> \<not> is_future st tok \<and>
         (\<forall>t\<in>set skipped. is_start_token t \<or> is_stale st t \<or> is_future st t))) \<and>
   (fifo_wf (fifo st) \<and> buffer_fifo_sniff (fifo st) = Some t \<and>
    \<not> is_end_token t \<and> \<not> is_start_token t \<and> (is_stale st t \<or> is_future st t) \<and>
    \<not> (gated_recording ps \<and> \<not> s_is_gated st) \<longrightarrow>
      fifo_tokens (fifo st) = t # fifo_tokens (snd (buffer_fifo_get (fifo st))) \<and>
      dataprocessor_buffers_get_next ps st =
        dataprocessor_buffers_get_next ps (st\<lparr>fifo := snd (buffer_fifo_get (fifo st))\<rparr>))"
proof -
  have yield: "\<exists>skipped tok.
         fifo_tokens (fifo st) = skipped @ tok # fifo_tokens (fifo st') \<and>
         \<not> is_end_token tok \<and> \<not> is_start_token tok \<and>
         \<not> is_stale st tok \<and> \<not> is_future st tok \<and>
         (\<forall>t\<in>set skipped. is_start_token t \<or> is_stale st t \<or> is_future st t)"
    if wf: "fifo_wf (fifo st)"
      and res: "dataprocessor_buffers_get_next ps st = (close_file, Some b, st')"
  proof -
    have "get_next_loop (gated_recording ps) st = (close_file, Some b, st')"
      using res by (simp add: dataprocessor_buffers_get_next_def Let_def split: if_splits)
    from get_next_loop_yield [OF wf this] show ?thesis by blast
  qed
  have discard: "fifo_tokens (fifo st) = t # fifo_tokens (snd (buffer_fifo_get (fifo st))) \<and>
      dataprocessor_buffers_get_next ps st =
        dataprocessor_buffers_get_next ps (st\<lparr>fifo := snd (buffer_fifo_get (fifo st))\<rparr>)"
    if "fifo_wf (fifo st)" "buffer_fifo_sniff (fifo st) = Some t"
      "\<not> is_end_token t" "\<not> is_start_token t" "is_stale st t \<or> is_future st t"
      "\<not> (gated_recording ps \<and> \<not> s_is_gated st)"
  proof -
    have g: "(gated_recording ps \<and> \<not> s_is_gated st) = False" using that(6) by simp
    show ?thesis
      using get_tokens [OF that(1,2)] get_next_loop_discard [OF that(2-5), of "gated_recording ps"]
      by (simp add: dataprocessor_buffers_get_next_def Let_def g)
  qed
  show ?thesis
    using yield discard by blast
qed



theorem get_next_discards_unretained_witness:
  "fifo_wf (fifo stale_fifo_state) \<and>
   fifo_tokens (fifo stale_fifo_state) = [3, 60, 45, 46] \<and>
   is_stale stale_fifo_state 3 \<and> is_future stale_fifo_state 60 \<and>
   fst (snd (dataprocessor_buffers_get_next example_settings stale_fifo_state)) = Some 7 \<and>
   fifo_tokens (fifo (snd (snd (dataprocessor_buffers_get_next example_settings stale_fifo_state)))) = [46] \<and>
   (\<exists>skipped tok. [3, 60, 45, 46] = skipped @ tok # [46] \<and>
      \<not> is_stale stale_fifo_state tok \<and> \<not> is_future stale_fifo_state tok)"
proof -
  let ?r = "dataprocessor_buffers_get_next example_settings stale_fifo_state"
  have wf: "fifo_wf (fifo stale_fifo_state)" by code_simp
  have tk: "fifo_tokens (fifo stale_fifo_state) = [3, 60, 45, 46]" by code_simp
  have cl: "is_stale stale_fifo_state 3" "is_future stale_fifo_state 60" by code_simp+
  have b: "fst (snd ?r) = Some 7" by code_simp
  have tk': "fifo_tokens (fifo (snd (snd ?r))) = [46]" by code_simp
  have r: "?r = (fst ?r, Some 7, snd (snd ?r))"
    using b by (metis prod.collapse)
  from get_next_discards_unretained [of stale_fifo_state example_settings "fst ?r" 7 "snd (snd ?r)"] wf r
  have "\<exists>skipped tok.
         fifo_tokens (fifo stale_fifo_state) = skipped @ tok # fifo_tokens (fifo (snd (snd ?r))) \<and>
         \<not> is_end_token tok \<and> \<not> is_start_token tok \<and>
         \<not> is_stale stale_fifo_state tok \<and> \<not> is_future stale_fifo_state tok \<and>
         (\<forall>t\<in>set skipped. is_start_token t \<or> is_stale stale_fifo_state t \<or> is_future stale_fifo_state t)"
    by blast
  then have "\<exists>skipped tok. [3, 60, 45, 46] = skipped @ tok # [46] \<and>
      \<not> is_stale stale_fifo_state tok \<and> \<not> is_future stale_fifo_state tok"
    unfolding tk tk' by blast
  then show ?thesis
    using wf tk cl b tk' by blast
qed

section \<open>FIFO occupancy\<close>

lemma uint32_of_sub_bound:
  assumes "0 \<le> F" "F < 2 ^ 32" "0 \<le> p" "p \<le> 35"
  shows "F - uint32_of (F - p) \<le> 35"
proof (cases "p \<le> F")
  case True
  then have "uint32_of (F - p) = F - p"
    using assms by (intro uint32_of_id) simp_all
  then show ?thesis using assms by linarith
next
  case False
  have "(F - p) mod 2 ^ 32 = F - p + 2 ^ 32"
    using False assms by (intro int_mod_pos_eq [where q = "- 1"]) simp_all
  then show ?thesis using assms by (simp add: uint32_of_def)
qed

lemma backfill_length:
  assumes k: "0 \<le> k" and x: "0 \<le> x"
  shows "length [uint32_of (uint32_of k - uint32_of (float_trunc (MIN_macro x
            (float_of_int (uint32_of (MIN_macro (NUM_BUFFERS - BUFFER_DELTA) k)))))) ..
          uint32_of k - 1] \<le> 35"
proof -
  define p where "p = min (float_trunc x) (min (NUM_BUFFERS - BUFFER_DELTA) k)"
  define F where "F = uint32_of k"
  have p: "0 \<le> p" "p \<le> 35"
    using k float_trunc_ge0 [OF x] by (simp_all add: p_def NUM_BUFFERS_def BUFFER_DELTA_def)
  have F: "0 \<le> F" "F < 2 ^ 32" by (simp_all add: F_def uint32_of_def)
  have "F - uint32_of (F - p) \<le> 35"
    by (rule uint32_of_sub_bound [OF F p])
  then have "length [uint32_of (F - p) .. F - 1] \<le> 35" by simp
  then show ?thesis
    unfolding pretrigger_count_eq [OF k x] p_def F_def .
qed

lemma on_trigger_fields [simp]:
  "s_unwrapped_filled_buffer_counter (data_processor_buffers_on_trigger ps tick st) =
     s_unwrapped_filled_buffer_counter st"
  "s_buffers_per_second (data_processor_buffers_on_trigger ps tick st) = s_buffers_per_second st"
  "s_is_gated (data_processor_buffers_on_trigger ps tick st) = s_is_gated st"
  "s_mode (data_processor_buffers_on_trigger ps tick st) = s_mode st"
  by (simp_all add: data_processor_buffers_on_trigger_def Let_def)

lemma on_trigger_fifo:
  "(\<not> trigger_accepted tick st \<or> s_is_triggered st) \<and>
     fifo (data_processor_buffers_on_trigger ps tick st) = fifo st \<and>
     s_is_triggered (data_processor_buffers_on_trigger ps tick st) = s_is_triggered st \<or>
   trigger_accepted tick st \<and> \<not> s_is_triggered st \<and>
     s_is_triggered (data_processor_buffers_on_trigger ps tick st) \<and>
     (\<exists>ts. fifo (data_processor_buffers_on_trigger ps tick st) =
             fold buffer_fifo_put (START_TOKEN # ts) (fifo st) \<and>
           (0 \<le> s_unwrapped_filled_buffer_counter st \<and>
            0 \<le> s_buffers_per_second st \<and> 0 \<le> pretrigger_time_s ps \<longrightarrow> length ts \<le> 35))"
proof (cases "trigger_accepted tick st")
  case False
  then show ?thesis by (simp add: on_trigger_ignored)
next
  case acc: True
  show ?thesis
  proof (cases "s_is_triggered st")
    case True
    then show ?thesis by (simp add: on_trigger_retrigger [OF acc])
  next
    case False
    let ?k = "s_unwrapped_filled_buffer_counter st"
    let ?x = "float_mul (float_of_int (s_buffers_per_second st)) (pretrigger_time_s ps)"
    let ?l = "[uint32_of (uint32_of ?k - uint32_of (float_trunc (MIN_macro ?x
            (float_of_int (uint32_of (MIN_macro (NUM_BUFFERS - BUFFER_DELTA) ?k)))))) ..
          uint32_of ?k - 1]"
    have guard: "\<not> (s_is_gated st \<or> tick < s_gate_released_ticks st + 10)"
      using acc by (auto simp add: trigger_accepted_def)
    have f: "fifo (data_processor_buffers_on_trigger ps tick st) =
             fold buffer_fifo_put (START_TOKEN # map int32_of ?l) (fifo st)"
      and t: "s_is_triggered (data_processor_buffers_on_trigger ps tick st)"
      unfolding data_processor_buffers_on_trigger_def Let_def
      using guard False by (simp_all add: fold_put_map START_TOKEN_def)
    have "length (map int32_of ?l) \<le> 35"
      if "0 \<le> ?k" "0 \<le> s_buffers_per_second st" "0 \<le> pretrigger_time_s ps"
      using backfill_length [OF that(1) duration_nonneg(1) [OF that(2,3)]] by simp
    then show ?thesis
      using acc False f t by blast
  qed
qed


lemma get_next_loop_preserves:
  "\<exists>f n. snd (snd (get_next_loop g st)) = st\<lparr>fifo := f, s_is_new_sequence := n\<rparr> \<and>
         s_buffer_fifo_count f \<le> s_buffer_fifo_count (fifo st) \<and>
         (fifo_wf (fifo st) \<longrightarrow> fifo_wf f)"
proof (induction g st rule: get_next_loop.induct)
  case (1 gated st)
  note unf = get_next_loop.simps [of gated st]
  have keep: ?case if "snd (snd (get_next_loop gated st)) = st"
    by (intro exI [of _ "fifo st"] exI [of _ "s_is_new_sequence st"]) (simp add: that)
  have take: ?case
    if "snd (snd (get_next_loop gated st)) =
          st\<lparr>fifo := snd (buffer_fifo_get (fifo st)), s_is_new_sequence := n\<rparr>"
      and "0 < s_buffer_fifo_count (fifo st)" for n
    using that get_wf [OF _ that(2)]
    by (intro exI [of _ "snd (buffer_fifo_get (fifo st))"] exI [of _ n]) simp
  have step: ?case
    if rec: "get_next_loop gated st = get_next_loop gated st1"
      and st1: "st1 = st\<lparr>fifo := snd (buffer_fifo_get (fifo st)), s_is_new_sequence := n\<rparr>"
      and pos: "0 < s_buffer_fifo_count (fifo st)"
      and ih: "\<exists>f n. snd (snd (get_next_loop gated st1)) = st1\<lparr>fifo := f, s_is_new_sequence := n\<rparr> \<and>
         s_buffer_fifo_count f \<le> s_buffer_fifo_count (fifo st1) \<and>
         (fifo_wf (fifo st1) \<longrightarrow> fifo_wf f)"
    for st1 n
  proof -
    from ih obtain f m where
      a: "snd (snd (get_next_loop gated st1)) = st1\<lparr>fifo := f, s_is_new_sequence := m\<rparr>"
      and b: "s_buffer_fifo_count f \<le> s_buffer_fifo_count (fifo st1)"
      and c: "fifo_wf (fifo st1) \<longrightarrow> fifo_wf f"
      by blast
    have "snd (snd (get_next_loop gated st)) = st\<lparr>fifo := f, s_is_new_sequence := m\<rparr>"
      using a rec by (simp add: st1)
    moreover have "s_buffer_fifo_count f \<le> s_buffer_fifo_count (fifo st)"
      using b by (simp add: st1)
    moreover have "fifo_wf (fifo st) \<longrightarrow> fifo_wf f"
      using c get_wf [OF _ pos] by (simp add: st1)
    ultimately show ?thesis by blast
  qed
  show ?case
  proof (cases "buffer_fifo_sniff (fifo st)")
    case None
    then show ?thesis
      by (intro keep) (simp add: unf)
  next
    case (Some t)
    then have pos: "0 < s_buffer_fifo_count (fifo st)" by (simp add: sniff_Some_iff)
    show ?thesis
    proof (cases "uint32_of t = BUFFERFIFO_END_SEQUENCE")
      case True
      show ?thesis
        by (rule take [OF _ pos, of False]) (simp add: unf Some True)
    next
      case ne: False
      show ?thesis
      proof (cases "uint32_of t = BUFFERFIFO_START_SEQUENCE")
        case True
        have rec: "get_next_loop gated st = get_next_loop gated
              (st\<lparr>fifo := snd (buffer_fifo_get (fifo st)), s_is_new_sequence := True\<rparr>)"
          using ne True by (simp add: unf Some)
        show ?thesis
          by (rule step [OF rec refl pos "1.IH"(1) [OF Some ne True]])
      next
        case ns: False
        show ?thesis
        proof (cases "t < s_unwrapped_filled_buffer_counter st - NUM_BUFFERS + 1")
          case True
          have rec: "get_next_loop gated st = get_next_loop gated
                (st\<lparr>fifo := snd (buffer_fifo_get (fifo st)), s_is_new_sequence := s_is_new_sequence st\<rparr>)"
            using ne ns True by (simp add: unf Some)
          show ?thesis
            using step [OF rec refl pos] "1.IH"(2) [OF Some ne ns True] by simp
        next
          case nstale: False
          show ?thesis
          proof (cases "s_unwrapped_filled_buffer_counter st \<le> t")
            case True
            have rec: "get_next_loop gated st = get_next_loop gated
                  (st\<lparr>fifo := snd (buffer_fifo_get (fifo st)), s_is_new_sequence := s_is_new_sequence st\<rparr>)"
              using ne ns nstale True by (simp add: unf Some)
            show ?thesis
              using step [OF rec refl pos] "1.IH"(3) [OF Some ne ns nstale True] by simp
          next
            case nfut: False
            have "snd (snd (get_next_loop gated st)) = st \<or>
                  snd (snd (get_next_loop gated st)) =
                    st\<lparr>fifo := snd (buffer_fifo_get (fifo st)), s_is_new_sequence := False\<rparr>"
              using ne ns nstale nfut
              by (simp add: unf Some Let_def)
            then show ?thesis
              using keep take [OF _ pos, of False] by blast
          qed
        qed
      qed
    qed
  qed
qed

lemma get_next_preserves:
  "\<exists>f n. snd (snd (dataprocessor_buffers_get_next ps st)) = st\<lparr>fifo := f, s_is_new_sequence := n\<rparr> \<and>
         s_buffer_fifo_count f \<le> s_buffer_fifo_count (fifo st) \<and>
         (fifo_wf (fifo st) \<longrightarrow> fifo_wf f)"
proof (cases "gated_recording ps \<and> \<not> s_is_gated st")
  case True
  have "snd (snd (dataprocessor_buffers_get_next ps st)) = st"
    using True by (simp add: dataprocessor_buffers_get_next_def)
  then show ?thesis
    by (intro exI [of _ "fifo st"] exI [of _ "s_is_new_sequence st"]) simp
next
  case False
  then have "dataprocessor_buffers_get_next ps st = get_next_loop (gated_recording ps) st"
    by (auto simp add: dataprocessor_buffers_get_next_def Let_def)
  then show ?thesis
    using get_next_loop_preserves [of "gated_recording ps" st] by simp
qed


subsection \<open>The invariant of gated recording\<close>

lemma invariant_samples [simp]:
  "gated_invariant (st\<lparr>s_buffers := m, s_active_buffer_entry_count := e\<rparr>) = gated_invariant st"
  by (simp add: gated_invariant_def)

lemma invariant_reset:
  assumes "length (s_buffer_fifo (fifo st0)) = BUFFER_FIFO_LENGTH"
  shows "gated_invariant (data_processor_buffers_reset mode sps st0)"
proof -
  have u: "0 \<le> uint32_of sps" "uint32_of sps \<le> 4294967295"
    by (simp_all add: uint32_of_def)
  have "uint32_of sps div 32768 \<le> 4294967295 div 32768"
    using u(2) by (intro zdiv_mono1) simp_all
  then have "0 \<le> uint32_of sps div DATA_BUFFER_ENTRIES" "uint32_of sps div DATA_BUFFER_ENTRIES < 2 ^ 31"
    using u(1) by (simp_all add: DATA_BUFFER_ENTRIES_def pos_imp_zdiv_nonneg_iff)
  then have "0 \<le> int32_of (uint32_of sps div DATA_BUFFER_ENTRIES)"
    by (simp add: int32_of_id)
  then show ?thesis
    using assms
    by (simp add: gated_invariant_def data_processor_buffers_reset_def fifo_wf_def
        BUFFER_FIFO_LENGTH_val NUM_BUFFERS_def)
qed

lemma invariant_switch:
  assumes inv: "gated_invariant st" and ng: "\<not> s_is_gated st"
  shows "gated_invariant (switch_to_next_buffer True st)"
proof -
  let ?c = "s_buffer_fifo_count (fifo st)"
  have wf: "fifo_wf (fifo st)" and c75: "int ?c \<le> 75"
    and fill: "0 \<le> s_unwrapped_filled_buffer_counter st" and bps: "0 \<le> s_buffers_per_second st"
    using inv by (simp_all add: gated_invariant_def NUM_BUFFERS_def)
  have cb: "int ?c \<le> (if s_is_triggered st then 73 else 37)"
    using inv ng by (auto simp add: gated_invariant_def NUM_BUFFERS_def split: if_splits)
  have room: "?c < BUFFER_FIFO_LENGTH" "?c + 1 < BUFFER_FIFO_LENGTH"
    using c75 by (simp_all add: BUFFER_FIFO_LENGTH_val)
  have wf1: "fifo_wf (buffer_fifo_put v (fifo st))" for v
    by (rule put_wf [OF wf room(1)])
  have wf2: "fifo_wf (buffer_fifo_put w (buffer_fifo_put v (fifo st)))" for v w
    by (rule put_wf [OF wf1]) (use room in simp)
  show ?thesis
  proof (cases "s_mode st")
    case DATA_PROCESSOR_CONTINUOUS
    show ?thesis
      using switch_continuous_gated [OF DATA_PROCESSOR_CONTINUOUS] fill bps cb ng wf1 wf2
      by (auto simp add: gated_invariant_def NUM_BUFFERS_def split: if_splits)
  next
    case DATA_PROCESSOR_TRIGGERED
    show ?thesis
    proof (cases "s_is_triggered st")
      case True
      show ?thesis
        using switch_triggered_gated [OF DATA_PROCESSOR_TRIGGERED True] fill bps cb ng wf1 True
        by (auto simp add: gated_invariant_def NUM_BUFFERS_def split: if_splits)
    next
      case False
      show ?thesis
        using switch_triggered_idle [OF DATA_PROCESSOR_TRIGGERED False, of True] fill bps cb ng wf False c75
        by (simp add: gated_invariant_def NUM_BUFFERS_def)
    qed
  qed
qed

lemma invariant_append:
  assumes g: "gated_recording ps" and inv: "gated_invariant st"
    and r: "data_processor_buffers ps src off count st = Some st'"
  shows "gated_invariant st'"
proof -
  from data_processor_buffers_cases [OF r]
  consider (same) "st'\<lparr>s_buffers := s_buffers st,
             s_active_buffer_entry_count := s_active_buffer_entry_count st\<rparr> = st"
    | (switch) "\<not> s_is_gated st"
        "st'\<lparr>s_buffers := s_buffers st, s_active_buffer_entry_count := 0\<rparr> =
            switch_to_next_buffer True st"
    using g by auto
  then show ?thesis
  proof cases
    case same
    have "gated_invariant st' = gated_invariant (st'\<lparr>s_buffers := s_buffers st,
             s_active_buffer_entry_count := s_active_buffer_entry_count st\<rparr>)"
      by simp
    then show ?thesis using inv same by simp
  next
    case switch
    have "gated_invariant st' = gated_invariant (st'\<lparr>s_buffers := s_buffers st,
             s_active_buffer_entry_count := 0\<rparr>)"
      by simp
    then show ?thesis using invariant_switch [OF inv switch(1)] switch(2) by simp
  qed
qed

lemma invariant_trigger:
  assumes inv: "gated_invariant st" and pre: "0 \<le> pretrigger_time_s ps"
  shows "gated_invariant (data_processor_buffers_on_trigger ps tick st)"
proof -
  let ?st' = "data_processor_buffers_on_trigger ps tick st"
  have fill: "0 \<le> s_unwrapped_filled_buffer_counter st" and bps: "0 \<le> s_buffers_per_second st"
    and wf: "fifo_wf (fifo st)"
    using inv by (simp_all add: gated_invariant_def)
  have x: "0 \<le> s_buffers_per_second st \<and> 0 \<le> pretrigger_time_s ps"
    using bps pre by simp
  from on_trigger_fifo [of tick st ps]
  consider (same) "fifo ?st' = fifo st" "s_is_triggered ?st' = s_is_triggered st"
    | (new) ts where "trigger_accepted tick st" "\<not> s_is_triggered st" "s_is_triggered ?st'"
        "fifo ?st' = fold buffer_fifo_put (START_TOKEN # ts) (fifo st)" "length ts \<le> 35"
    using fill x by blast
  then show ?thesis
  proof cases
    case same
    then show ?thesis using inv by (simp add: gated_invariant_def)
  next
    case new
    have ng: "\<not> s_is_gated st" using new(1) by (simp add: trigger_accepted_def)
    have c: "int (s_buffer_fifo_count (fifo st)) \<le> 37"
      using inv ng new(2) by (simp add: gated_invariant_def NUM_BUFFERS_def)
    have "s_buffer_fifo_count (fifo st) + length (START_TOKEN # ts) \<le> BUFFER_FIFO_LENGTH"
      using c new(5) by (simp add: BUFFER_FIFO_LENGTH_val)
    from fold_put_tokens [OF wf this]
    have wf': "fifo_wf (fifo ?st')" by (simp add: new(4))
    have c': "int (s_buffer_fifo_count (fifo ?st')) \<le> 73"
      using c new(5) by (simp add: new(4))
    show ?thesis
      using fill bps wf' c' new(3) by (simp add: gated_invariant_def NUM_BUFFERS_def)
  qed
qed

lemma invariant_get_next:
  assumes inv: "gated_invariant st"
  shows "gated_invariant (snd (snd (dataprocessor_buffers_get_next ps st)))"
proof -
  from get_next_preserves [of ps st] obtain f n where
    a: "snd (snd (dataprocessor_buffers_get_next ps st)) = st\<lparr>fifo := f, s_is_new_sequence := n\<rparr>"
    and b: "s_buffer_fifo_count f \<le> s_buffer_fifo_count (fifo st)"
    and c: "fifo_wf (fifo st) \<longrightarrow> fifo_wf f"
    by blast
  show ?thesis
    unfolding a using inv b c by (auto simp add: gated_invariant_def)
qed

lemma invariant_recording_complete:
  assumes inv: "gated_invariant st" and empty: "s_buffer_fifo_count (fifo st) = 0"
  shows "gated_invariant (data_processor_buffers_on_recording_complete ps tick st)"
proof -
  have wf: "fifo_wf (fifo st)" using inv by (simp add: gated_invariant_def)
  have "fifo_wf (buffer_fifo_put START_TOKEN (fifo st))"
    by (rule put_wf [OF wf]) (simp add: empty BUFFER_FIFO_LENGTH_val)
  then show ?thesis
    using inv empty
    by (simp add: gated_invariant_def on_recording_complete_fields NUM_BUFFERS_def)
qed

lemma reachable_invariant:
  assumes "gated_recording ps" and "0 \<le> pretrigger_time_s ps"
    and "reachable ps mode sps st"
  shows "gated_invariant st"
  using assms(3)
proof (induction rule: reachable.induct)
  case (reach_reset st0)
  then show ?case by (rule invariant_reset)
next
  case (reach_append st pDMABuffer dma_buffer_offset count st')
  then show ?case using invariant_append [OF assms(1)] by blast
next
  case (reach_trigger st main_tick_count)
  then show ?case using invariant_trigger [OF _ assms(2)] by blast
next
  case (reach_get_next st)
  then show ?case using invariant_get_next by blast
next
  case (reach_recording_complete st main_tick_count)
  then show ?case using invariant_recording_complete by blast
qed

lemma switch_continuous_nongated:
  assumes "s_mode st = DATA_PROCESSOR_CONTINUOUS"
  shows "fifo (switch_to_next_buffer False st) =
           buffer_fifo_put (s_unwrapped_filled_buffer_counter st) (fifo st)"
  using assms by (simp add: switch_to_next_buffer_def Let_def)

lemma fill_one_slot:
  assumes wf: "buffers_wf st" and ec: "s_active_buffer_entry_count st = 0"
    and mode: "s_mode st = DATA_PROCESSOR_CONTINUOUS" and ng: "\<not> gated_recording ps"
  shows "\<exists>st'. data_processor_buffers ps src off DATA_BUFFER_ENTRIES st = Some st' \<and>
           buffers_wf st' \<and> s_active_buffer_entry_count st' = 0 \<and>
           s_mode st' = DATA_PROCESSOR_CONTINUOUS \<and>
           s_buffer_fifo_count (fifo st') = s_buffer_fifo_count (fifo st) + 1"
proof -
  have pos: "0 \<le> DATA_BUFFER_ENTRIES" by (simp add: DATA_BUFFER_ENTRIES_def)
  from data_processor_buffers_total [OF wf order_refl, of ps src off] pos ng
  obtain st' where r: "data_processor_buffers ps src off DATA_BUFFER_ENTRIES st = Some st'"
    and wf': "buffers_wf st'"
    and acct: "s_unwrapped_filled_buffer_counter st' * DATA_BUFFER_ENTRIES + s_active_buffer_entry_count st' =
       s_unwrapped_filled_buffer_counter st * DATA_BUFFER_ENTRIES + s_active_buffer_entry_count st +
       DATA_BUFFER_ENTRIES"
    and f: "s_unwrapped_filled_buffer_counter st' = s_unwrapped_filled_buffer_counter st \<or>
            s_unwrapped_filled_buffer_counter st' = s_unwrapped_filled_buffer_counter st + 1"
    by auto
  have e': "0 \<le> s_active_buffer_entry_count st'" "s_active_buffer_entry_count st' < DATA_BUFFER_ENTRIES"
    using wf' by (simp_all add: buffers_wf_def)
  have fill': "s_unwrapped_filled_buffer_counter st' = s_unwrapped_filled_buffer_counter st + 1"
    using f acct e' ec by (auto simp add: DATA_BUFFER_ENTRIES_def)
  then have ec': "s_active_buffer_entry_count st' = 0"
    using acct ec by (simp add: algebra_simps)
  from data_processor_buffers_cases [OF r]
  have sw: "st'\<lparr>s_buffers := s_buffers st, s_active_buffer_entry_count := 0\<rparr> =
            switch_to_next_buffer (gated_recording ps) st"
  proof
    assume "st'\<lparr>s_buffers := s_buffers st,
             s_active_buffer_entry_count := s_active_buffer_entry_count st\<rparr> = st"
    then have "s_unwrapped_filled_buffer_counter (st'\<lparr>s_buffers := s_buffers st,
             s_active_buffer_entry_count := s_active_buffer_entry_count st\<rparr>) =
             s_unwrapped_filled_buffer_counter st" by simp
    then show ?thesis using fill' by simp
  qed simp
  have "fifo st' = fifo (st'\<lparr>s_buffers := s_buffers st, s_active_buffer_entry_count := 0\<rparr>)"
    "s_mode st' = s_mode (st'\<lparr>s_buffers := s_buffers st, s_active_buffer_entry_count := 0\<rparr>)"
    by simp_all
  then have "fifo st' = buffer_fifo_put (s_unwrapped_filled_buffer_counter st) (fifo st)"
    "s_mode st' = DATA_PROCESSOR_CONTINUOUS"
    unfolding sw using ng mode by (simp_all add: switch_continuous_nongated)
  then show ?thesis
    using r wf' ec' by simp
qed

lemma continuous_reset_values:
  "buffers_wf continuous_reset_state"
  "s_active_buffer_entry_count continuous_reset_state = 0"
  "s_mode continuous_reset_state = DATA_PROCESSOR_CONTINUOUS"
  "s_buffer_fifo_count (fifo continuous_reset_state) = 0"
  by (simp_all add: continuous_reset_state_def data_processor_buffers_reset_def buffers_wf_def
      NUM_BUFFERS_def DATA_BUFFER_ENTRIES_def)

lemma continuous_reset_reachable:
  "reachable ps DATA_PROCESSOR_CONTINUOUS 384000 continuous_reset_state"
  unfolding continuous_reset_state_def
  by (rule reach_reset) (simp add: initial_buffers_state_def)

lemma fill_slots_unconsumed:
  assumes ng: "\<not> gated_recording ps"
  shows "\<exists>st. fill_slots n ps continuous_reset_state = Some st \<and>
           reachable ps DATA_PROCESSOR_CONTINUOUS 384000 st \<and>
           buffers_wf st \<and> s_active_buffer_entry_count st = 0 \<and>
           s_mode st = DATA_PROCESSOR_CONTINUOUS \<and>
           s_buffer_fifo_count (fifo st) = n"
proof (induction n)
  case 0
  show ?case
    using continuous_reset_values continuous_reset_reachable by simp
next
  case (Suc n)
  then obtain st where st: "fill_slots n ps continuous_reset_state = Some st"
    and re: "reachable ps DATA_PROCESSOR_CONTINUOUS 384000 st"
    and wf: "buffers_wf st" and ec: "s_active_buffer_entry_count st = 0"
    and mode: "s_mode st = DATA_PROCESSOR_CONTINUOUS"
    and c: "s_buffer_fifo_count (fifo st) = n"
    by blast
  from fill_one_slot [OF wf ec mode ng, of silence 0]
  obtain st' where r: "data_processor_buffers ps silence 0 DATA_BUFFER_ENTRIES st = Some st'"
    and p: "buffers_wf st'" "s_active_buffer_entry_count st' = 0"
      "s_mode st' = DATA_PROCESSOR_CONTINUOUS"
      "s_buffer_fifo_count (fifo st') = s_buffer_fifo_count (fifo st) + 1"
    by blast
  have "reachable ps DATA_PROCESSOR_CONTINUOUS 384000 st'"
    by (rule reach_append [OF re r])
  then show ?case
    using st r p c by simp
qed

text \<open>
  Claim C5, as stated: whatever the interleaving of producer and consumer steps, the FIFO
  never holds more entries than its capacity. It fails without gated recording, where nothing
  holds the producer back: in continuous mode 186 completed slots with no call of
  \<open>dataprocessor_buffers_get_next\<close> in between leave a count of 186, above the capacity 185.
\<close>

theorem fifo_overflow_counterexample:
  "map_option (s_buffer_fifo_count \<circ> fifo) (fill_slots 186 example_settings continuous_reset_state) =
     Some 186 \<and>
   pred_option (reachable example_settings DATA_PROCESSOR_CONTINUOUS 384000)
     (fill_slots 186 example_settings continuous_reset_state) \<and>
   BUFFER_FIFO_LENGTH = 185"
proof -
  have ng: "\<not> gated_recording example_settings" by (simp add: example_settings_def)
  from fill_slots_unconsumed [OF ng, of 186] show ?thesis
    by (auto simp add: BUFFER_FIFO_LENGTH_val)
qed

text \<open>
  Claim C5, amended. With gated recording enabled and a pretrigger time that is not
  negative, in every state reachable from a reset by any interleaving of producer steps
  (calls of \<open>data_processor_buffers\<close>, trigger events) and consumer steps (calls of
  \<open>dataprocessor_buffers_get_next\<close>, and the recording-complete signal once the FIFO has been
  drained), the FIFO holds at most \<open>2 * NUM_BUFFERS + 1\<close> entries, which is less than its
  capacity of \<open>5 * NUM_BUFFERS\<close>; so a put never overwrites a token that is still waiting: it
  appends to the waiting tokens.
\<close>

theorem gated_fifo_within_capacity:
  assumes "gated_recording ps" and "0 \<le> pretrigger_time_s ps"
    and "reachable ps mode sps st"
  shows "int (s_buffer_fifo_count (fifo st)) \<le> 2 * NUM_BUFFERS + 1 \<and>
         s_buffer_fifo_count (fifo st) < BUFFER_FIFO_LENGTH \<and>
         int BUFFER_FIFO_LENGTH = 5 * NUM_BUFFERS \<and>
         (\<forall>v. fifo_tokens (buffer_fifo_put v (fifo st)) = fifo_tokens (fifo st) @ [v])"
proof -
  have inv: "gated_invariant st" by (rule reachable_invariant [OF assms])
  then have wf: "fifo_wf (fifo st)" and c: "int (s_buffer_fifo_count (fifo st)) \<le> 2 * NUM_BUFFERS + 1"
    by (simp_all add: gated_invariant_def)
  have room: "s_buffer_fifo_count (fifo st) < BUFFER_FIFO_LENGTH"
    using c by (simp add: BUFFER_FIFO_LENGTH_val NUM_BUFFERS_def)
  show ?thesis
    using c room put_tokens [OF wf room] by (simp add: BUFFER_FIFO_LENGTH_val NUM_BUFFERS_def)
qed

theorem gated_fifo_within_capacity_witness:
  "gated_recording gated_settings \<and> 0 \<le> pretrigger_time_s gated_settings \<and>
   reachable gated_settings DATA_PROCESSOR_CONTINUOUS 384000
     (data_processor_buffers_on_trigger gated_settings 20 continuous_reset_state) \<and>
   fifo_tokens (fifo (data_processor_buffers_on_trigger gated_settings 20 continuous_reset_state)) =
     [START_TOKEN] \<and>
   s_buffer_fifo_count (fifo (data_processor_buffers_on_trigger gated_settings 20 continuous_reset_state))
     < BUFFER_FIFO_LENGTH"
proof -
  have g: "gated_recording gated_settings" "0 \<le> pretrigger_time_s gated_settings"
    by (simp_all add: gated_settings_def example_settings_def)
  have r: "reachable gated_settings DATA_PROCESSOR_CONTINUOUS 384000
     (data_processor_buffers_on_trigger gated_settings 20 continuous_reset_state)"
    by (rule reach_trigger [OF continuous_reset_reachable])
  have t: "fifo_tokens (fifo (data_processor_buffers_on_trigger gated_settings 20 continuous_reset_state)) =
     [START_TOKEN]"
    by code_simp
  show ?thesis
    using gated_fifo_within_capacity [OF g r] g r t by simp
qed

section \<open>The final index of a trigger sequence\<close>

text \<open>
  Rounding and truncation are monotone, so the freshly computed final index grows with the
  fill counter; every operation of the module keeps the final index at or below it.
\<close>

lemma fresh_final_samples [simp]:
  "fresh_final ps (st\<lparr>s_buffers := m, s_active_buffer_entry_count := e\<rparr>) = fresh_final ps st"
  "fresh_final ps (st\<lparr>fifo := f, s_is_new_sequence := n\<rparr>) = fresh_final ps st"
  by (simp_all add: fresh_final_def)

lemma final_invariant_samples [simp]:
  "final_invariant ps (st\<lparr>s_buffers := m, s_active_buffer_entry_count := e\<rparr>) = final_invariant ps st"
  "final_invariant ps (st\<lparr>fifo := f, s_is_new_sequence := n\<rparr>) = final_invariant ps st"
  by (simp_all add: final_invariant_def)

lemma fresh_final_switch:
  assumes "0 \<le> s_unwrapped_filled_buffer_counter st" "0 \<le> s_buffers_per_second st"
    "0 \<le> min_sampling_time_s ps"
  shows "fresh_final ps st \<le> fresh_final ps (switch_to_next_buffer g st)"
proof -
  let ?d = "float_mul (float_of_int (s_buffers_per_second st)) (min_sampling_time_s ps)"
  have d: "0 \<le> ?d" by (rule duration_nonneg(2) [OF assms(2,3)])
  have a: "0 \<le> float_of_int (s_unwrapped_filled_buffer_counter st)"
    by (rule float_of_int_nonneg [OF assms(1)])
  have "float_of_int (s_unwrapped_filled_buffer_counter st) \<le>
        float_of_int (s_unwrapped_filled_buffer_counter st + 1)"
    using assms(1) by (intro float_of_int_mono) simp_all
  from float_add_mono [OF a d this] show ?thesis
    unfolding fresh_final_def by (simp add: float_trunc_mono)
qed

lemma final_invariant_switch:
  assumes "final_invariant ps st" and "0 \<le> min_sampling_time_s ps"
  shows "final_invariant ps (switch_to_next_buffer g st)"
proof -
  have k: "0 \<le> s_unwrapped_filled_buffer_counter st" and b: "0 \<le> s_buffers_per_second st"
    using assms(1) by (simp_all add: final_invariant_def)
  from fresh_final_switch [OF k b assms(2), of g] assms(1) show ?thesis
    by (auto simp add: final_invariant_def)
qed

lemma final_invariant_reset:
  assumes "0 \<le> min_sampling_time_s ps"
  shows "final_invariant ps (data_processor_buffers_reset mode sps st0)"
proof -
  have u: "0 \<le> uint32_of sps" "uint32_of sps \<le> 4294967295"
    by (simp_all add: uint32_of_def)
  have "uint32_of sps div 32768 \<le> 4294967295 div 32768"
    using u(2) by (intro zdiv_mono1) simp_all
  then have "0 \<le> uint32_of sps div DATA_BUFFER_ENTRIES" "uint32_of sps div DATA_BUFFER_ENTRIES < 2 ^ 31"
    using u(1) by (simp_all add: DATA_BUFFER_ENTRIES_def pos_imp_zdiv_nonneg_iff)
  then have b: "0 \<le> int32_of (uint32_of sps div DATA_BUFFER_ENTRIES)"
    by (simp add: int32_of_id)
  have "0 \<le> fresh_final ps (data_processor_buffers_reset mode sps st0)"
    by (rule fresh_final_nonneg) (use b assms in \<open>simp_all add: data_processor_buffers_reset_def\<close>)
  then show ?thesis
    using b by (simp add: final_invariant_def data_processor_buffers_reset_def)
qed

lemma final_invariant_append:
  assumes inv: "final_invariant ps st" and mn: "0 \<le> min_sampling_time_s ps"
    and r: "data_processor_buffers ps src off count st = Some st'"
  shows "final_invariant ps st'"
proof -
  from data_processor_buffers_cases [OF r]
  consider (same) "st'\<lparr>s_buffers := s_buffers st,
             s_active_buffer_entry_count := s_active_buffer_entry_count st\<rparr> = st"
    | (switch) "st'\<lparr>s_buffers := s_buffers st, s_active_buffer_entry_count := 0\<rparr> =
            switch_to_next_buffer (gated_recording ps) st"
    by auto
  then show ?thesis
  proof cases
    case same
    have "final_invariant ps st' = final_invariant ps (st'\<lparr>s_buffers := s_buffers st,
             s_active_buffer_entry_count := s_active_buffer_entry_count st\<rparr>)"
      by simp
    then show ?thesis using inv same by simp
  next
    case switch
    have "final_invariant ps st' = final_invariant ps (st'\<lparr>s_buffers := s_buffers st,
             s_active_buffer_entry_count := 0\<rparr>)"
      by simp
    then show ?thesis using final_invariant_switch [OF inv mn] switch by simp
  qed
qed

lemma on_trigger_final:
  assumes "trigger_accepted tick st"
  shows "s_final_unwrapped_buffer_for_trigger (data_processor_buffers_on_trigger ps tick st) =
           (if s_is_triggered st then fresh_final ps st
            else int32_of (uint32_of (fresh_final ps st)))"
proof -
  have guard: "\<not> (s_is_gated st \<or> tick < s_gate_released_ticks st + 10)"
    using assms by (auto simp add: trigger_accepted_def)
  show ?thesis
    unfolding data_processor_buffers_on_trigger_def Let_def
    using guard by (simp add: fresh_final_def)
qed

lemma fresh_final_on_trigger [simp]:
  "fresh_final ps (data_processor_buffers_on_trigger ps' tick st) = fresh_final ps st"
  by (simp add: fresh_final_def)

lemma final_invariant_trigger:
  assumes inv: "final_invariant ps st" and mn: "0 \<le> min_sampling_time_s ps"
  shows "final_invariant ps (data_processor_buffers_on_trigger ps tick st)"
proof (cases "trigger_accepted tick st")
  case False
  then show ?thesis using inv by (simp add: on_trigger_ignored)
next
  case True
  have nn: "0 \<le> fresh_final ps st"
    using inv mn by (intro fresh_final_nonneg) (simp_all add: final_invariant_def)
  have "int32_of (uint32_of (fresh_final ps st)) = fresh_final ps st" if "fresh_final ps st < 2 ^ 31"
    using nn that by (simp add: uint32_of_id int32_of_id)
  then show ?thesis
    using inv on_trigger_final [OF True, of ps]
    by (auto simp add: final_invariant_def)
qed

lemma final_invariant_get_next:
  assumes inv: "final_invariant ps st"
  shows "final_invariant ps (snd (snd (dataprocessor_buffers_get_next ps st)))"
proof -
  from get_next_preserves [of ps st] obtain f n where
    a: "snd (snd (dataprocessor_buffers_get_next ps st)) = st\<lparr>fifo := f, s_is_new_sequence := n\<rparr>"
    by blast
  show ?thesis unfolding a using inv by simp
qed

lemma final_invariant_recording_complete:
  assumes inv: "final_invariant ps st"
  shows "final_invariant ps (data_processor_buffers_on_recording_complete ps tick st)"
proof -
  have ff: "fresh_final ps (data_processor_buffers_on_recording_complete ps tick st) = fresh_final ps st"
    by (simp add: fresh_final_def on_recording_complete_fields)
  have "s_final_unwrapped_buffer_for_trigger (data_processor_buffers_on_recording_complete ps tick st) =
          s_final_unwrapped_buffer_for_trigger st \<or>
        s_final_unwrapped_buffer_for_trigger (data_processor_buffers_on_recording_complete ps tick st) =
          fresh_final ps st"
    by (cases "s_mode st")
       (simp_all add: data_processor_buffers_on_recording_complete_def Let_def fresh_final_def)
  then show ?thesis
    using inv unfolding final_invariant_def ff
    by (auto simp add: on_recording_complete_fields)
qed

lemma reachable_final_invariant:
  assumes "0 \<le> min_sampling_time_s ps" and "reachable ps mode sps st"
  shows "final_invariant ps st"
  using assms(2)
proof (induction rule: reachable.induct)
  case (reach_reset st0)
  show ?case by (rule final_invariant_reset [OF assms(1)])
next
  case (reach_append st pDMABuffer dma_buffer_offset count st')
  then show ?case using final_invariant_append [OF _ assms(1)] by blast
next
  case (reach_trigger st main_tick_count)
  then show ?case using final_invariant_trigger [OF _ assms(1)] by blast
next
  case (reach_get_next st)
  then show ?case using final_invariant_get_next by blast
next
  case (reach_recording_complete st main_tick_count)
  then show ?case using final_invariant_recording_complete by blast
qed

lemma first_trigger_values:
  "buffers_wf first_trigger_state"
  "s_active_buffer_entry_count first_trigger_state = 0"
  "s_buffers first_trigger_state = (\<lambda>a. 0)"
  "\<not> gated_recording example_settings"
  by (simp_all add: first_trigger_state_def reset_state_def data_processor_buffers_on_trigger_def
      data_processor_buffers_reset_def initial_buffers_state_def example_settings_def
      buffers_wf_def Let_def NUM_BUFFERS_def DATA_BUFFER_ENTRIES_def)

lemma second_slot_values:
  "s_is_triggered (switch_to_next_buffer False first_trigger_state)"
  "trigger_accepted 30 (switch_to_next_buffer False first_trigger_state)"
  "s_final_unwrapped_buffer_for_trigger (switch_to_next_buffer False first_trigger_state) = 22"
  "fresh_final example_settings (switch_to_next_buffer False first_trigger_state) = 23"
  by code_simp+

lemma second_slot_reachable:
  "reachable example_settings DATA_PROCESSOR_TRIGGERED 384000
     (switch_to_next_buffer False first_trigger_state)"
proof -
  have r: "reachable example_settings DATA_PROCESSOR_TRIGGERED 384000 first_trigger_state"
    unfolding first_trigger_state_def reset_state_def
    by (rule reach_trigger, rule reach_reset) (simp add: initial_buffers_state_def)
  have ng: "\<not> (gated_recording example_settings \<and> s_is_gated first_trigger_state)"
    using first_trigger_values(4) by simp
  have "data_processor_buffers example_settings silence 0 DATA_BUFFER_ENTRIES first_trigger_state =
      Some (switch_to_next_buffer False first_trigger_state)"
    using silent_slot [OF first_trigger_values(1) ng first_trigger_values(2,3)]
      first_trigger_values(4) by simp
  from reach_append [OF r this] show ?thesis .
qed

text \<open>
  Claim C3, as stated: in every state with \<open>s_is_triggered\<close> true a further trigger event sets
  the final index to the maximum of the old final index and the fill counter plus the minimum
  recording duration in buffers. It fails while the gate is set: in a gated session that is
  writing to SD card with 50 buffers filled and the final index 60, a trigger is ignored and
  the final index stays 60, although the fill counter plus the minimum duration (22 buffers)
  is 72. And it fails for an accepted trigger at the fill counter \<open>2 ^ 24 + 1\<close>: the fill
  counter plus the minimum duration is \<open>2 ^ 24 + 23\<close>, above the old final index
  \<open>2 ^ 24 + 11\<close>, but the final index becomes \<open>2 ^ 24 + 22\<close>, because the conversion of the
  fill counter to \<open>float\<close> rounds it down by one.
\<close>

theorem retrigger_ignored_counterexample:
  "(s_is_triggered gated_triggered_state \<and>
    s_final_unwrapped_buffer_for_trigger gated_triggered_state = 60 \<and>
    s_unwrapped_filled_buffer_counter gated_triggered_state +
      minimum_buffers example_settings gated_triggered_state = 72 \<and>
    s_final_unwrapped_buffer_for_trigger
      (data_processor_buffers_on_trigger example_settings 20 gated_triggered_state) = 60) \<and>
   (s_is_triggered late_retrigger_state \<and> trigger_accepted 20 late_retrigger_state \<and>
    s_final_unwrapped_buffer_for_trigger late_retrigger_state = 2 ^ 24 + 11 \<and>
    s_unwrapped_filled_buffer_counter late_retrigger_state +
      minimum_buffers example_settings late_retrigger_state = 2 ^ 24 + 23 \<and>
    s_final_unwrapped_buffer_for_trigger
      (data_processor_buffers_on_trigger example_settings 20 late_retrigger_state) = 2 ^ 24 + 22)"
  by code_simp

text \<open>
  Claim C3, amended. For every state with \<open>s_is_triggered\<close> true, a further trigger event
  puts nothing into the FIFO. If the trigger is accepted (gate clear, at least 10 main ticks
  after the gate release) it sets the final index to the freshly computed one, the \<open>float\<close>
  sum of the fill counter \<open>k\<close> and of the minimum recording duration in buffers, converted to
  an integer; that is \<open>k + d\<close> when the duration is a whole number \<open>d\<close> of buffers and
  \<open>k + d \<le> 2 ^ 24\<close>, and it is the maximum of the old final index and itself whenever the
  old final index does not exceed it, which is the case in every state a session reaches with
  a non-negative minimum recording time and the new value below \<open>2 ^ 31\<close>. If the trigger is
  not accepted the state stays as it is.
\<close>

theorem retrigger_extends_final:
  assumes "s_is_triggered st"
    and "st1 = data_processor_buffers_on_trigger ps tick st"
    and "k = s_unwrapped_filled_buffer_counter st"
  shows "fifo st1 = fifo st \<and> s_is_triggered st1 \<and>
         (trigger_accepted tick st \<longrightarrow>
            s_final_unwrapped_buffer_for_trigger st1 = fresh_final ps st) \<and>
         (trigger_accepted tick st \<and> s_final_unwrapped_buffer_for_trigger st \<le> fresh_final ps st \<longrightarrow>
            s_final_unwrapped_buffer_for_trigger st1 =
              max (s_final_unwrapped_buffer_for_trigger st) (fresh_final ps st)) \<and>
         (trigger_accepted tick st \<and> reachable ps mode samples_per_second st \<and>
          0 \<le> min_sampling_time_s ps \<and> fresh_final ps st < 2 ^ 31 \<longrightarrow>
            s_final_unwrapped_buffer_for_trigger st1 =
              max (s_final_unwrapped_buffer_for_trigger st) (fresh_final ps st)) \<and>
         (\<not> trigger_accepted tick st \<longrightarrow> st1 = st) \<and>
         (\<forall>d. 0 \<le> k \<and> 0 \<le> d \<and>
              float_mul (float_of_int (s_buffers_per_second st)) (min_sampling_time_s ps) = real_of_int d \<and>
              k + d \<le> 2 ^ 24 \<longrightarrow> fresh_final ps st = k + d)"
proof -
  have sum: "fresh_final ps st = k + d"
    if "0 \<le> k" "0 \<le> d"
      "float_mul (float_of_int (s_buffers_per_second st)) (min_sampling_time_s ps) = real_of_int d"
      "k + d \<le> 2 ^ 24" for d
    using fresh_final_whole [OF _ that(2,3)] that(1,4) assms(3) by simp
  have le: "s_final_unwrapped_buffer_for_trigger st \<le> fresh_final ps st"
    if "reachable ps mode samples_per_second st" and "0 \<le> min_sampling_time_s ps"
      and "fresh_final ps st < 2 ^ 31"
    using reachable_final_invariant [OF that(2) that(1)] that(3)
    by (simp add: final_invariant_def)
  show ?thesis
  proof (cases "trigger_accepted tick st")
    case True
    have fin: "s_final_unwrapped_buffer_for_trigger st1 = fresh_final ps st"
      using on_trigger_final [OF True, of ps] assms by simp
    have rest: "fifo st1 = fifo st \<and> s_is_triggered st1"
      using on_trigger_retrigger [OF True assms(1), of ps] assms by simp
    show ?thesis using True fin rest sum le by auto
  next
    case False
    have "st1 = st" using on_trigger_ignored [OF False, of ps] assms(2) by simp
    then show ?thesis using False assms(1) sum by auto
  qed
qed

theorem retrigger_extends_final_witness:
  "s_is_triggered (switch_to_next_buffer False first_trigger_state) \<and>
   trigger_accepted 30 (switch_to_next_buffer False first_trigger_state) \<and>
   reachable example_settings DATA_PROCESSOR_TRIGGERED 384000
     (switch_to_next_buffer False first_trigger_state) \<and>
   0 \<le> min_sampling_time_s example_settings \<and>
   fresh_final example_settings (switch_to_next_buffer False first_trigger_state) < 2 ^ 31 \<and>
   s_final_unwrapped_buffer_for_trigger (switch_to_next_buffer False first_trigger_state) = 22 \<and>
   s_final_unwrapped_buffer_for_trigger
     (data_processor_buffers_on_trigger example_settings 30
        (switch_to_next_buffer False first_trigger_state)) = max 22 23 \<and>
   fifo (data_processor_buffers_on_trigger example_settings 30
        (switch_to_next_buffer False first_trigger_state)) =
     fifo (switch_to_next_buffer False first_trigger_state)"
proof -
  note T = retrigger_extends_final [OF second_slot_values(1) refl refl,
      of example_settings 30 DATA_PROCESSOR_TRIGGERED 384000]
  show ?thesis
    using T second_slot_values second_slot_reachable example_settings_signs(2) by simp
qed

subsection \<open>The slot handed out for a token\<close>

text \<open>
  \<open>dataprocessor_buffers_get_next\<close> hands out the slot
  \<open>(token - fill counter) + (active index - 1)\<close>, wrapped into \<open>0 ..< NUM_BUFFERS\<close>. After the
  first completed slot of a continuous session (slot 0, queued as token 0; active index and
  fill counter both 1) it hands out slot 36 for token 0.
\<close>

lemma first_token_slot:
  "fifo_tokens (fifo (switch_to_next_buffer False continuous_reset_state)) = [0] \<and>
   s_active_buffer_index (switch_to_next_buffer False continuous_reset_state) = 1 \<and>
   s_unwrapped_filled_buffer_counter (switch_to_next_buffer False continuous_reset_state) = 1 \<and>
   fst (snd (dataprocessor_buffers_get_next example_settings
          (switch_to_next_buffer False continuous_reset_state))) = Some 36"
  by code_simp

end
